theory Spec2Isabelle
  imports Main "HOL-Library.Word"
begin

unbundle bit_operations_syntax

section \<open>The encryption layer of util.c\<close>

text \<open>
  The theory embeds the cryptographic functions of \<^verbatim>\<open>src/util.c\<close>: \<^verbatim>\<open>xor128\<close>,
  \<^verbatim>\<open>lrz_keygen\<close>, \<^verbatim>\<open>lrz_crypt\<close>, \<^verbatim>\<open>lrz_stretch\<close> and \<^verbatim>\<open>decrypt_header\<close>.
  Memory is modelled by byte lists; an access outside the object a pointer refers to is
  undefined behaviour in C and is the value \<open>Undefined_behaviour\<close> here. libgcrypt is an
  external library: its hash and block cipher are parameters, and the status every
  fallible call returns is given by an oracle.
\<close>

subsection \<open>Bytes, integers and memory\<close>

type_synonym uchar = "8 word"

datatype 'a outcome = Returned 'a | Undefined_behaviour

fun obind :: "'a outcome \<Rightarrow> ('a \<Rightarrow> 'b outcome) \<Rightarrow> 'b outcome" where
  "obind (Returned x) f = f x"
| "obind Undefined_behaviour f = Undefined_behaviour"

text \<open>
  Modelled from the spec: the macros \<^verbatim>\<open>HASH_LEN\<close>, \<^verbatim>\<open>SALT_LEN\<close> and \<^verbatim>\<open>CBC_LEN\<close> are
  declared in \<^verbatim>\<open>lrzip_private.h\<close>, which is not part of the sources at hand. The spec
  gives a 64-byte digest, a 16-byte salt and a 16-byte cipher block.
\<close>

definition HASH_LEN :: nat where "HASH_LEN = 64"
definition SALT_LEN :: nat where "SALT_LEN = 16"
definition CBC_LEN :: nat where "CBC_LEN = 16"

text \<open>
  Modelled from the spec: \<^verbatim>\<open>PASS_LEN\<close> comes from the same header and the spec gives it
  no value (the passphrase has variable length). It is the capacity of the passphrase
  part of the scratch buffer of \<^verbatim>\<open>lrz_keygen\<close>. The theorems only use that the
  passphrase fits, whatever the capacity is.
\<close>

definition PASS_LEN :: nat where "PASS_LEN = 512"

text \<open>Conversions of C: to \<^verbatim>\<open>size_t\<close> (64 bits), to \<^verbatim>\<open>int\<close> (32 bits), to \<^verbatim>\<open>i64\<close>.\<close>

definition size_t :: "int \<Rightarrow> nat" where
  "size_t x = nat (x mod 2 ^ 64)"

definition to_int :: "int \<Rightarrow> int" where
  "to_int x = (x + 2 ^ 31) mod 2 ^ 32 - 2 ^ 31"

definition to_i64 :: "int \<Rightarrow> int" where
  "to_i64 x = (x + 2 ^ 63) mod 2 ^ 64 - 2 ^ 63"

text \<open>The remainder of C truncates towards zero.\<close>

definition c_rem :: "int \<Rightarrow> int \<Rightarrow> int" where
  "c_rem a b = sgn a * (\<bar>a\<bar> mod \<bar>b\<bar>)"

text \<open>
  \<^verbatim>\<open>memcpy(dst + doff, src + soff, n)\<close>: both ranges have to lie inside their objects.
\<close>

definition memcpy :: "uchar list \<Rightarrow> int \<Rightarrow> uchar list \<Rightarrow> int \<Rightarrow> nat \<Rightarrow> uchar list outcome" where
  "memcpy dst doff src soff n =
     (if 0 \<le> doff \<and> 0 \<le> soff \<and> nat soff + n \<le> length src \<and> nat doff + n \<le> length dst
      then Returned (take (nat doff) dst @ take n (drop (nat soff) src) @ drop (nat doff + n) dst)
      else Undefined_behaviour)"

text \<open>The bytes of an \<^verbatim>\<open>i64\<close> in little-endian order, and the value they stand for.\<close>

definition le64 :: "int \<Rightarrow> uchar list" where
  "le64 x = [word_of_int x, word_of_int (x div 2 ^ 8), word_of_int (x div 2 ^ 16),
             word_of_int (x div 2 ^ 24), word_of_int (x div 2 ^ 32), word_of_int (x div 2 ^ 40),
             word_of_int (x div 2 ^ 48), word_of_int (x div 2 ^ 56)]"

definition i64_of_le :: "uchar list \<Rightarrow> int" where
  "i64_of_le bs = to_i64 (foldr (\<lambda>b a. uint b + 256 * a) bs 0)"

text \<open>\<^verbatim>\<open>xor128\<close> combines two 16-byte blocks as two 64-bit words, which is bytewise.\<close>

definition xor128 :: "uchar list \<Rightarrow> uchar list \<Rightarrow> uchar list" where
  "xor128 pa pb = map (\<lambda>(a, b). a XOR b) (zip pa pb)"

subsection \<open>The libgcrypt capability\<close>

text \<open>
  The places where the code calls a libgcrypt function that returns a status. The names
  follow the failure messages of \<^verbatim>\<open>lrz_crypt\<close>.
\<close>

datatype call =
    Md_open
  | Cbc_open | Cbc_setkey | Cbc_setiv
  | Cbc_encrypt | Cbc_encrypt_tail
  | Ecb_open | Ecb_setkey
  | Cbc_decrypt_head | Ecb_decrypt | Cbc_decrypt_final | Cbc_decrypt_all

record gcrypt =
  md_digest :: "uchar list \<Rightarrow> uchar list"
  aes_encrypt :: "uchar list \<Rightarrow> uchar list \<Rightarrow> uchar list"
  aes_decrypt :: "uchar list \<Rightarrow> uchar list \<Rightarrow> uchar list"
  gcry_error :: "call \<Rightarrow> nat"

text \<open>
  A hash handle holds the bytes written since it was opened or reset. When
  \<^verbatim>\<open>gcry_md_open\<close> fails the handle is not valid, and using it is undefined behaviour.
\<close>

datatype md_hd = Md_invalid | Md_handle "uchar list"

definition gcry_md_open :: "gcrypt \<Rightarrow> md_hd" where
  "gcry_md_open g = (if gcry_error g Md_open = 0 then Md_handle [] else Md_invalid)"

fun gcry_md_write :: "md_hd \<Rightarrow> uchar list \<Rightarrow> nat \<Rightarrow> md_hd outcome" where
  "gcry_md_write Md_invalid src n = Undefined_behaviour"
| "gcry_md_write (Md_handle acc) src n =
     (if n \<le> length src then Returned (Md_handle (acc @ take n src)) else Undefined_behaviour)"

fun gcry_md_read :: "gcrypt \<Rightarrow> md_hd \<Rightarrow> uchar list outcome" where
  "gcry_md_read g Md_invalid = Undefined_behaviour"
| "gcry_md_read g (Md_handle acc) = Returned (md_digest g acc)"

fun gcry_md_reset :: "md_hd \<Rightarrow> md_hd outcome" where
  "gcry_md_reset Md_invalid = Undefined_behaviour"
| "gcry_md_reset (Md_handle acc) = Returned (Md_handle [])"

subsection \<open>The session state\<close>

record rzip_control =
  hash :: "uchar list"
  salt_pass :: "uchar list"
  salt_pass_len :: int
  encloops :: int

subsection \<open>lrz_keygen\<close>

text \<open>
  The function returns nothing; it fills \<^verbatim>\<open>key\<close> and \<^verbatim>\<open>iv\<close>. The status of
  \<^verbatim>\<open>gcry_md_open\<close> is dropped, as the source says (no error checking for the hash
  functions). The scratch buffer is local and zeroed before the return; the handle is
  closed.
\<close>

definition lrz_keygen ::
  "gcrypt \<Rightarrow> rzip_control \<Rightarrow> uchar list \<Rightarrow> uchar list \<Rightarrow> uchar list \<Rightarrow> (uchar list \<times> uchar list) outcome" where
  "lrz_keygen g control salt key0 iv0 =
     obind (memcpy (replicate (HASH_LEN + SALT_LEN + PASS_LEN) 0) 0 (hash control) 0 HASH_LEN) (\<lambda>b1.
     obind (memcpy b1 (int HASH_LEN) salt 0 SALT_LEN) (\<lambda>b2.
     obind (memcpy b2 (int (HASH_LEN + SALT_LEN)) (salt_pass control) 0 (size_t (salt_pass_len control))) (\<lambda>b3.
     obind (gcry_md_write (gcry_md_open g) b3 (size_t (int (HASH_LEN + SALT_LEN) + salt_pass_len control))) (\<lambda>h1.
     obind (gcry_md_read g h1) (\<lambda>d1.
     obind (memcpy key0 0 d1 0 HASH_LEN) (\<lambda>key1.
     obind (gcry_md_reset h1) (\<lambda>h2.
     obind (memcpy b3 0 key1 0 HASH_LEN) (\<lambda>b4.
     obind (memcpy b4 (int HASH_LEN) salt 0 SALT_LEN) (\<lambda>b5.
     obind (memcpy b5 (int (HASH_LEN + SALT_LEN)) (salt_pass control) 0 (size_t (salt_pass_len control))) (\<lambda>b6.
     obind (gcry_md_write h2 b6 (size_t (int (HASH_LEN + SALT_LEN) + salt_pass_len control))) (\<lambda>h3.
     obind (gcry_md_read g h3) (\<lambda>d2.
     obind (memcpy iv0 0 d2 0 HASH_LEN) (\<lambda>iv1.
       Returned (key1, iv1))))))))))))))"

subsection \<open>lrz_stretch\<close>

text \<open>
  The result of \<^verbatim>\<open>lrz_stretch\<close>: the session state it leaves and the hash handle it
  opened, \<open>None\<close> once the handle has been closed.
\<close>

record stretched =
  control_after :: rzip_control
  md_handle :: "md_hd option"

function stretch_loop :: "int \<Rightarrow> int \<Rightarrow> rzip_control \<Rightarrow> md_hd \<Rightarrow> md_hd outcome" where
  "stretch_loop j n control h =
     (if j < n then
        obind (gcry_md_write h (le64 j) 8) (\<lambda>h1.
        obind (gcry_md_write h1 (salt_pass control) (size_t (salt_pass_len control))) (\<lambda>h2.
          stretch_loop (j + 1) n control h2))
      else Returned h)"
  by pat_completeness auto
termination
  by (relation "measure (\<lambda>(j, n, control, h). nat (n - j))") auto

declare stretch_loop.simps [simp del]

text \<open>
  The number of rounds. \<^verbatim>\<open>encloops * HASH_LEN\<close> is an \<^verbatim>\<open>i64\<close> product;
  \<^verbatim>\<open>sizeof(i64)\<close> is a \<^verbatim>\<open>size_t\<close>, so the sum and the division are unsigned, and the
  quotient is stored in an \<^verbatim>\<open>i64\<close>. A division by zero is undefined.
\<close>

definition stretch_rounds :: "rzip_control \<Rightarrow> int outcome" where
  "stretch_rounds control =
     (if size_t (salt_pass_len control + 8) = 0 then Undefined_behaviour
      else Returned (to_i64 (int (size_t (to_i64 (encloops control * int HASH_LEN))
                                  div size_t (salt_pass_len control + 8)))))"

definition lrz_stretch :: "gcrypt \<Rightarrow> rzip_control \<Rightarrow> stretched outcome" where
  "lrz_stretch g control =
     obind (stretch_rounds control) (\<lambda>n.
     obind (stretch_loop 0 n control (gcry_md_open g)) (\<lambda>h.
       Returned \<lparr>control_after = control, md_handle = Some h\<rparr>))"

subsection \<open>Cipher handles and block modes\<close>

datatype cipher_mode = GCRY_CIPHER_MODE_CBC | GCRY_CIPHER_MODE_ECB

record cipher_hd =
  hd_mode :: cipher_mode
  hd_key :: "uchar list"
  hd_iv :: "uchar list"

text \<open>
  The block modes of the library over whole blocks of \<open>CBC_LEN\<close> bytes. CBC returns the
  chaining value it leaves in the handle: the last ciphertext block.
\<close>

fun cbc_encrypt_blocks ::
  "gcrypt \<Rightarrow> uchar list \<Rightarrow> nat \<Rightarrow> uchar list \<Rightarrow> uchar list \<Rightarrow> uchar list \<times> uchar list" where
  "cbc_encrypt_blocks g k 0 v src = ([], v)"
| "cbc_encrypt_blocks g k (Suc n) v src =
     (let c = aes_encrypt g k (xor128 (take CBC_LEN src) v);
          r = cbc_encrypt_blocks g k n c (drop CBC_LEN src)
      in (c @ fst r, snd r))"

fun cbc_decrypt_blocks ::
  "gcrypt \<Rightarrow> uchar list \<Rightarrow> nat \<Rightarrow> uchar list \<Rightarrow> uchar list \<Rightarrow> uchar list \<times> uchar list" where
  "cbc_decrypt_blocks g k 0 v src = ([], v)"
| "cbc_decrypt_blocks g k (Suc n) v src =
     (let c = take CBC_LEN src;
          p = xor128 (aes_decrypt g k c) v;
          r = cbc_decrypt_blocks g k n c (drop CBC_LEN src)
      in (p @ fst r, snd r))"

fun ecb_encrypt_blocks :: "gcrypt \<Rightarrow> uchar list \<Rightarrow> nat \<Rightarrow> uchar list \<Rightarrow> uchar list" where
  "ecb_encrypt_blocks g k 0 src = []"
| "ecb_encrypt_blocks g k (Suc n) src =
     aes_encrypt g k (take CBC_LEN src) @ ecb_encrypt_blocks g k n (drop CBC_LEN src)"

fun ecb_decrypt_blocks :: "gcrypt \<Rightarrow> uchar list \<Rightarrow> nat \<Rightarrow> uchar list \<Rightarrow> uchar list" where
  "ecb_decrypt_blocks g k 0 src = []"
| "ecb_decrypt_blocks g k (Suc n) src =
     aes_decrypt g k (take CBC_LEN src) @ ecb_decrypt_blocks g k n (drop CBC_LEN src)"

definition run_cipher :: "gcrypt \<Rightarrow> bool \<Rightarrow> cipher_hd \<Rightarrow> uchar list \<Rightarrow> uchar list \<times> cipher_hd" where
  "run_cipher g enc h src =
     (let nblocks = length src div CBC_LEN in
      case hd_mode h of
        GCRY_CIPHER_MODE_CBC \<Rightarrow>
          (let r = (if enc then cbc_encrypt_blocks g (hd_key h) nblocks (hd_iv h) src
                    else cbc_decrypt_blocks g (hd_key h) nblocks (hd_iv h) src)
           in (fst r, h\<lparr>hd_iv := snd r\<rparr>))
      | GCRY_CIPHER_MODE_ECB \<Rightarrow>
          (if enc then ecb_encrypt_blocks g (hd_key h) nblocks src
           else ecb_decrypt_blocks g (hd_key h) nblocks src, h))"

subsection \<open>The state of lrz_crypt\<close>

text \<open>
  The byte arrays \<^verbatim>\<open>lrz_crypt\<close> works on: the caller's buffer and its four local
  arrays. A pointer is an array and an offset into it.
\<close>

datatype region = Buf | Key | Iv | Tmp0 | Tmp1

text \<open>What the function hands to the cipher, in order.\<close>

datatype event =
    Setkey cipher_mode "uchar list"
  | Setiv cipher_mode "uchar list"
  | Crypt cipher_mode nat

record crypt_state =
  mem :: "region \<Rightarrow> uchar list"
  mlocked :: "region set"
  cbc_handle :: "cipher_hd option"
  ecb_handle :: "cipher_hd option"
  events :: "event list"
  ret :: bool

text \<open>
  A statement of \<^verbatim>\<open>lrz_crypt\<close> goes on to the next one, jumps to the label
  \<^verbatim>\<open>error\<close> (\<^verbatim>\<open>failure_goto\<close>), or has no defined behaviour.
\<close>

datatype 'a step = Next 'a | Goto_error 'a | Abort

fun and_then :: "'a step \<Rightarrow> ('a \<Rightarrow> 'a step) \<Rightarrow> 'a step" where
  "and_then (Next s) f = f s"
| "and_then (Goto_error s) f = Goto_error s"
| "and_then Abort f = Abort"

fun lift :: "'a outcome \<Rightarrow> 'a step" where
  "lift (Returned s) = Next s"
| "lift Undefined_behaviour = Abort"

definition load :: "crypt_state \<Rightarrow> region \<times> int \<Rightarrow> nat \<Rightarrow> uchar list outcome" where
  "load s p n =
     (if 0 \<le> snd p \<and> nat (snd p) + n \<le> length (mem s (fst p))
      then Returned (take n (drop (nat (snd p)) (mem s (fst p))))
      else Undefined_behaviour)"

definition store :: "region \<times> int \<Rightarrow> uchar list \<Rightarrow> crypt_state \<Rightarrow> crypt_state outcome" where
  "store p bs s =
     (if 0 \<le> snd p \<and> nat (snd p) + length bs \<le> length (mem s (fst p))
      then Returned (s\<lparr>mem := (mem s)(fst p :=
             take (nat (snd p)) (mem s (fst p)) @ bs @
             drop (nat (snd p) + length bs) (mem s (fst p)))\<rparr>)
      else Undefined_behaviour)"

definition st_memcpy :: "region \<times> int \<Rightarrow> region \<times> int \<Rightarrow> nat \<Rightarrow> crypt_state \<Rightarrow> crypt_state step" where
  "st_memcpy dst src n s = lift (obind (load s src n) (\<lambda>bs. store dst bs s))"

definition st_memset :: "region \<Rightarrow> uchar \<Rightarrow> nat \<Rightarrow> crypt_state \<Rightarrow> crypt_state step" where
  "st_memset r c n s = lift (store (r, 0) (replicate n c) s)"

definition st_xor128 :: "region \<Rightarrow> region \<Rightarrow> crypt_state \<Rightarrow> crypt_state step" where
  "st_xor128 pa pb s =
     lift (obind (load s (pa, 0) 16) (\<lambda>a.
           obind (load s (pb, 0) 16) (\<lambda>b.
             store (pa, 0) (xor128 a b) s)))"

definition get_hd :: "cipher_mode \<Rightarrow> crypt_state \<Rightarrow> cipher_hd option" where
  "get_hd m s = (case m of GCRY_CIPHER_MODE_CBC \<Rightarrow> cbc_handle s | GCRY_CIPHER_MODE_ECB \<Rightarrow> ecb_handle s)"

definition set_hd :: "cipher_mode \<Rightarrow> cipher_hd option \<Rightarrow> crypt_state \<Rightarrow> crypt_state" where
  "set_hd m h s =
     (case m of GCRY_CIPHER_MODE_CBC \<Rightarrow> s\<lparr>cbc_handle := h\<rparr>
              | GCRY_CIPHER_MODE_ECB \<Rightarrow> s\<lparr>ecb_handle := h\<rparr>)"

text \<open>
  The calls into the library. Each one first returns the status the oracle gives for
  its place in the code; a status other than 0 leaves the state as it is. A data call
  on a length that is no multiple of the block size is refused by the library.
\<close>

definition gcry_cipher_open :: "gcrypt \<Rightarrow> call \<Rightarrow> cipher_mode \<Rightarrow> crypt_state \<Rightarrow> crypt_state step" where
  "gcry_cipher_open g site m s =
     (if gcry_error g site \<noteq> 0 then Goto_error s
      else Next (set_hd m (Some \<lparr>hd_mode = m, hd_key = [], hd_iv = replicate CBC_LEN 0\<rparr>) s))"

definition gcry_cipher_setkey ::
  "gcrypt \<Rightarrow> call \<Rightarrow> cipher_mode \<Rightarrow> region \<Rightarrow> nat \<Rightarrow> crypt_state \<Rightarrow> crypt_state step" where
  "gcry_cipher_setkey g site m r n s =
     (if gcry_error g site \<noteq> 0 then Goto_error s
      else case get_hd m s of
        None \<Rightarrow> Abort
      | Some h \<Rightarrow>
          lift (obind (load s (r, 0) n) (\<lambda>k.
            Returned (set_hd m (Some (h\<lparr>hd_key := k\<rparr>)) (s\<lparr>events := events s @ [Setkey m k]\<rparr>)))))"

definition gcry_cipher_setiv ::
  "gcrypt \<Rightarrow> call \<Rightarrow> cipher_mode \<Rightarrow> region \<Rightarrow> nat \<Rightarrow> crypt_state \<Rightarrow> crypt_state step" where
  "gcry_cipher_setiv g site m r n s =
     (if gcry_error g site \<noteq> 0 then Goto_error s
      else case get_hd m s of
        None \<Rightarrow> Abort
      | Some h \<Rightarrow>
          lift (obind (load s (r, 0) n) (\<lambda>v.
            Returned (set_hd m (Some (h\<lparr>hd_iv := v\<rparr>)) (s\<lparr>events := events s @ [Setiv m v]\<rparr>)))))"

definition gcry_cipher_crypt ::
  "gcrypt \<Rightarrow> bool \<Rightarrow> call \<Rightarrow> cipher_mode \<Rightarrow> region \<times> int \<Rightarrow> region \<times> int \<Rightarrow> nat \<Rightarrow>
   crypt_state \<Rightarrow> crypt_state step" where
  "gcry_cipher_crypt g enc site m dst src n s =
     (if gcry_error g site \<noteq> 0 then Goto_error s
      else if n mod CBC_LEN \<noteq> 0 then Goto_error s
      else case get_hd m s of
        None \<Rightarrow> Abort
      | Some h \<Rightarrow>
          lift (obind (load s src n) (\<lambda>inp.
            store dst (fst (run_cipher g enc h inp))
              (set_hd m (Some (snd (run_cipher g enc h inp)))
                 (s\<lparr>events := events s @ [Crypt m n]\<rparr>)))))"

definition gcry_cipher_encrypt ::
  "gcrypt \<Rightarrow> call \<Rightarrow> cipher_mode \<Rightarrow> region \<times> int \<Rightarrow> region \<times> int \<Rightarrow> nat \<Rightarrow>
   crypt_state \<Rightarrow> crypt_state step" where
  "gcry_cipher_encrypt g = gcry_cipher_crypt g True"

definition gcry_cipher_decrypt ::
  "gcrypt \<Rightarrow> call \<Rightarrow> cipher_mode \<Rightarrow> region \<times> int \<Rightarrow> region \<times> int \<Rightarrow> nat \<Rightarrow>
   crypt_state \<Rightarrow> crypt_state step" where
  "gcry_cipher_decrypt g = gcry_cipher_crypt g False"

definition gcry_cipher_close :: "cipher_mode \<Rightarrow> crypt_state \<Rightarrow> crypt_state step" where
  "gcry_cipher_close m s = Next (set_hd m None s)"

subsection \<open>lrz_crypt\<close>

text \<open>
  Modelled from the spec: the direction macros \<^verbatim>\<open>LRZ_ENCRYPT\<close>, \<^verbatim>\<open>LRZ_DECRYPT\<close> and
  \<^verbatim>\<open>LRZ_VALIDATE\<close> are declared outside the sources at hand; the spec names these
  three directions. Whatever is not \<^verbatim>\<open>LRZ_ENCRYPT\<close> decrypts.
\<close>

datatype direction = LRZ_ENCRYPT | LRZ_DECRYPT | LRZ_VALIDATE

definition keygen_step :: "gcrypt \<Rightarrow> rzip_control \<Rightarrow> uchar list \<Rightarrow> crypt_state \<Rightarrow> crypt_state step" where
  "keygen_step g control salt s =
     lift (obind (lrz_keygen g control salt (mem s Key) (mem s Iv)) (\<lambda>kv.
       Returned (s\<lparr>mem := (mem s)(Key := fst kv, Iv := snd kv)\<rparr>)))"

definition crypt_setup :: "gcrypt \<Rightarrow> rzip_control \<Rightarrow> uchar list \<Rightarrow> crypt_state \<Rightarrow> crypt_state step" where
  "crypt_setup g control salt s =
     and_then (keygen_step g control salt s) (\<lambda>s.
     and_then (gcry_cipher_open g Cbc_open GCRY_CIPHER_MODE_CBC s) (\<lambda>s.
     and_then (gcry_cipher_setkey g Cbc_setkey GCRY_CIPHER_MODE_CBC Key CBC_LEN s) (\<lambda>s.
       gcry_cipher_setiv g Cbc_setiv GCRY_CIPHER_MODE_CBC Iv CBC_LEN s)))"

definition crypt_encrypt :: "gcrypt \<Rightarrow> int \<Rightarrow> int \<Rightarrow> crypt_state \<Rightarrow> crypt_state step" where
  "crypt_encrypt g M N s =
     and_then (gcry_cipher_encrypt g Cbc_encrypt GCRY_CIPHER_MODE_CBC (Buf, 0) (Buf, 0) (size_t N) s) (\<lambda>s.
     if M \<noteq> 0 then
       and_then (st_memset Tmp0 0 CBC_LEN s) (\<lambda>s.
       and_then (st_memcpy (Tmp0, 0) (Buf, N) (size_t M) s) (\<lambda>s.
       and_then (gcry_cipher_encrypt g Cbc_encrypt_tail GCRY_CIPHER_MODE_CBC (Tmp1, 0) (Tmp0, 0) CBC_LEN s) (\<lambda>s.
       and_then (st_memcpy (Buf, N) (Buf, N - int CBC_LEN) (size_t M) s) (\<lambda>s.
         st_memcpy (Buf, N - int CBC_LEN) (Tmp1, 0) CBC_LEN s))))
     else Next s)"

definition crypt_decrypt :: "gcrypt \<Rightarrow> int \<Rightarrow> int \<Rightarrow> int \<Rightarrow> crypt_state \<Rightarrow> crypt_state step" where
  "crypt_decrypt g len M N s =
     (if M \<noteq> 0 then
        and_then (gcry_cipher_open g Ecb_open GCRY_CIPHER_MODE_ECB s) (\<lambda>s.
        and_then (gcry_cipher_setkey g Ecb_setkey GCRY_CIPHER_MODE_ECB Key CBC_LEN s) (\<lambda>s.
        and_then (gcry_cipher_decrypt g Cbc_decrypt_head GCRY_CIPHER_MODE_CBC (Buf, 0) (Buf, 0)
                    (size_t (N - int CBC_LEN)) s) (\<lambda>s.
        and_then (gcry_cipher_decrypt g Ecb_decrypt GCRY_CIPHER_MODE_ECB (Tmp0, 0)
                    (Buf, N - int CBC_LEN) CBC_LEN s) (\<lambda>s.
        and_then (st_memset Tmp1 0 CBC_LEN s) (\<lambda>s.
        and_then (st_memcpy (Tmp1, 0) (Buf, N) (size_t M) s) (\<lambda>s.
        and_then (st_xor128 Tmp0 Tmp1 s) (\<lambda>s.
        and_then (st_memcpy (Buf, N) (Tmp0, 0) (size_t M) s) (\<lambda>s.
        and_then (st_memcpy (Tmp1, M) (Tmp0, M) (size_t (int CBC_LEN - M)) s) (\<lambda>s.
        and_then (gcry_cipher_decrypt g Cbc_decrypt_final GCRY_CIPHER_MODE_CBC
                    (Buf, N - int CBC_LEN) (Tmp1, 0) CBC_LEN s) (\<lambda>s.
          gcry_cipher_close GCRY_CIPHER_MODE_ECB s))))))))))
      else
        gcry_cipher_decrypt g Cbc_decrypt_all GCRY_CIPHER_MODE_CBC (Buf, 0) (Buf, 0) (size_t len) s)"

text \<open>
  The state on entry: the caller's buffer, the local arrays (their first contents are
  indeterminate in C and each is written before it is read), \<^verbatim>\<open>key\<close> and \<^verbatim>\<open>iv\<close>
  locked in memory.
\<close>

definition crypt_init :: "uchar list \<Rightarrow> crypt_state" where
  "crypt_init b =
     \<lparr>mem = (\<lambda>r. case r of Buf \<Rightarrow> b | Key \<Rightarrow> replicate HASH_LEN 0 | Iv \<Rightarrow> replicate HASH_LEN 0
                | Tmp0 \<Rightarrow> replicate CBC_LEN 0 | Tmp1 \<Rightarrow> replicate CBC_LEN 0),
      mlocked = {Key, Iv}, cbc_handle = None, ecb_handle = None, events = [], ret = False\<rparr>"

definition crypt_body ::
  "gcrypt \<Rightarrow> rzip_control \<Rightarrow> int \<Rightarrow> uchar list \<Rightarrow> direction \<Rightarrow> crypt_state \<Rightarrow> crypt_state step" where
  "crypt_body g control len salt encrypt s =
     (let M = c_rem len (int CBC_LEN); N = to_int (len - M) in
      and_then (crypt_setup g control salt s) (\<lambda>s.
      and_then (if encrypt = LRZ_ENCRYPT then crypt_encrypt g M N s
                else crypt_decrypt g len M N s) (\<lambda>s.
      and_then (gcry_cipher_close GCRY_CIPHER_MODE_CBC s) (\<lambda>s.
        Next (s\<lparr>ret := True\<rparr>)))))"

text \<open>The statements after the label \<^verbatim>\<open>error\<close>.\<close>

definition crypt_cleanup :: "crypt_state \<Rightarrow> crypt_state step" where
  "crypt_cleanup s =
     and_then (st_memset Iv 0 HASH_LEN s) (\<lambda>s.
     and_then (st_memset Key 0 HASH_LEN s) (\<lambda>s.
       Next (s\<lparr>mlocked := mlocked s - {Iv} - {Key}\<rparr>)))"

fun at_error_label :: "crypt_state step \<Rightarrow> crypt_state outcome" where
  "at_error_label (Next s) = Returned s"
| "at_error_label (Goto_error s) = Returned s"
| "at_error_label Abort = Undefined_behaviour"

definition lrz_crypt ::
  "gcrypt \<Rightarrow> rzip_control \<Rightarrow> uchar list \<Rightarrow> int \<Rightarrow> uchar list \<Rightarrow> direction \<Rightarrow> crypt_state outcome" where
  "lrz_crypt g control b len salt encrypt =
     obind (at_error_label (crypt_body g control len salt encrypt (crypt_init b))) (\<lambda>s.
       at_error_label (crypt_cleanup s))"

subsection \<open>decrypt_header\<close>

text \<open>
  Modelled from the spec: \<^verbatim>\<open>lrz_decrypt\<close> is declared in \<^verbatim>\<open>util.h\<close>, outside the
  sources at hand. The header codec "invokes BlockCipher on that 25-byte region" with
  the direction it was given, so the wrapper hands its arguments to \<^verbatim>\<open>lrz_crypt\<close>.
\<close>

definition lrz_decrypt ::
  "gcrypt \<Rightarrow> rzip_control \<Rightarrow> uchar list \<Rightarrow> int \<Rightarrow> uchar list \<Rightarrow> direction \<Rightarrow> crypt_state outcome" where
  "lrz_decrypt g control b len salt dec_or_validate = lrz_crypt g control b len salt dec_or_validate"

text \<open>
  What \<^verbatim>\<open>decrypt_header\<close> leaves: its result, the memory \<^verbatim>\<open>head\<close> points to and
  the four fields behind the pointers \<^verbatim>\<open>c_type\<close>, \<^verbatim>\<open>c_len\<close>, \<^verbatim>\<open>u_len\<close> and
  \<^verbatim>\<open>last_head\<close>. The \<^verbatim>\<open>i64\<close> fields are copied in the byte order of the host, taken
  to be little-endian. \<^verbatim>\<open>buf\<close> is \<^verbatim>\<open>head + SALT_LEN\<close> and the salt is \<^verbatim>\<open>head\<close> itself.
\<close>

record header =
  hdr_ret :: bool
  head_mem :: "uchar list"
  c_type :: uchar
  c_len :: int
  u_len :: int
  last_head :: int

definition decrypt_header ::
  "gcrypt \<Rightarrow> rzip_control \<Rightarrow> uchar list \<Rightarrow> uchar \<Rightarrow> int \<Rightarrow> int \<Rightarrow> int \<Rightarrow> direction \<Rightarrow> header outcome" where
  "decrypt_header g control head ct cl ul lh dec_or_validate =
     obind (memcpy head (int SALT_LEN) [ct] 0 1) (\<lambda>h1.
     obind (memcpy h1 (int SALT_LEN + 1) (le64 cl) 0 8) (\<lambda>h2.
     obind (memcpy h2 (int SALT_LEN + 9) (le64 ul) 0 8) (\<lambda>h3.
     obind (memcpy h3 (int SALT_LEN + 17) (le64 lh) 0 8) (\<lambda>h4.
     obind (lrz_decrypt g control (drop SALT_LEN h4) 25 h4 dec_or_validate) (\<lambda>s.
       let h5 = take SALT_LEN h4 @ mem s Buf in
       if \<not> ret s then
         Returned \<lparr>hdr_ret = False, head_mem = h5, c_type = ct, c_len = cl, u_len = ul, last_head = lh\<rparr>
       else
         obind (memcpy [ct] 0 h5 (int SALT_LEN) 1) (\<lambda>t.
         obind (memcpy (le64 cl) 0 h5 (int SALT_LEN + 1) 8) (\<lambda>a.
         obind (memcpy (le64 ul) 0 h5 (int SALT_LEN + 9) 8) (\<lambda>b.
         obind (memcpy (le64 lh) 0 h5 (int SALT_LEN + 17) 8) (\<lambda>c.
           Returned \<lparr>hdr_ret = True, head_mem = h5, c_type = t ! 0, c_len = i64_of_le a,
                     u_len = i64_of_le b, last_head = i64_of_le c\<rparr>)))))))))"

subsection \<open>A small provider and session for concrete runs\<close>

text \<open>
  A stand-in for the library with an invertible block function, a 64-byte digest and no
  failing call, and a session with a three-byte passphrase.
\<close>

definition example_gcrypt :: gcrypt where
  "example_gcrypt =
     \<lparr>md_digest = (\<lambda>d. replicate 64 (of_nat (length d) + d ! 0)),
      aes_encrypt = (\<lambda>k b. rev (xor128 b k)),
      aes_decrypt = (\<lambda>k b. xor128 (rev b) k),
      gcry_error = (\<lambda>site. 0)\<rparr>"

definition example_control :: rzip_control where
  "example_control = \<lparr>hash = replicate 64 7, salt_pass = [1, 2, 3], salt_pass_len = 3, encloops = 1\<rparr>"

definition example_salt :: "uchar list" where
  "example_salt = replicate 16 9"

text \<open>The same provider with one call that fails.\<close>

definition failing_at :: "call \<Rightarrow> gcrypt" where
  "failing_at site = example_gcrypt\<lparr>gcry_error := (\<lambda>c. if c = site then 1 else 0)\<rparr>"

text \<open>What a caller reads off a finished call.\<close>

fun observe :: "('s \<Rightarrow> 'a) \<Rightarrow> 's outcome \<Rightarrow> 'a outcome" where
  "observe f (Returned s) = Returned (f s)"
| "observe f Undefined_behaviour = Undefined_behaviour"

subsection \<open>Invariants and observations of lrz_crypt\<close>

text \<open>
  What holds of every cipher call the function makes: a key and an iv of \<open>CBC_LEN\<close>
  bytes, data in whole blocks of \<open>CBC_LEN\<close> bytes.
\<close>

fun event_ok :: "event \<Rightarrow> bool" where
  "event_ok (Setkey m k) = (length k = CBC_LEN)"
| "event_ok (Setiv m v) = (length v = CBC_LEN)"
| "event_ok (Crypt m n) = (n mod CBC_LEN = 0)"


text \<open>The arrays keep their sizes, and the calls made so far are as above.\<close>

definition crypt_inv :: "uchar list \<Rightarrow> crypt_state \<Rightarrow> bool" where
  "crypt_inv b s \<longleftrightarrow>
     length (mem s Buf) = length b \<and> length (mem s Key) = HASH_LEN \<and>
     length (mem s Iv) = HASH_LEN \<and> length (mem s Tmp0) = CBC_LEN \<and>
     length (mem s Tmp1) = CBC_LEN \<and> list_all event_ok (events s)"

fun holds :: "('a \<Rightarrow> bool) \<Rightarrow> 'a step \<Rightarrow> bool" where
  "holds P (Next s) = P s"
| "holds P (Goto_error s) = P s"
| "holds P Abort = True"







text \<open>The result and the key material a call leaves behind.\<close>

definition key_material :: "crypt_state \<Rightarrow> bool \<times> uchar list \<times> uchar list \<times> bool \<times> bool" where
  "key_material s = (ret s, mem s Key, mem s Iv, Key \<in> mlocked s, Iv \<in> mlocked s)"

definition example_buf :: "uchar list" where
  "example_buf = [1, 2, 3, 4, 5, 6, 7, 8, 9, 10, 11, 12, 13, 14, 15, 16, 17, 18, 19, 20,
                  21, 22, 23, 24, 25, 26, 27, 28, 29, 30]"

subsection \<open>What the block transform computes\<close>

text \<open>
  The assumptions on the library under which a transform succeeds: the block function
  maps 16-byte blocks to 16-byte blocks under a 16-byte key and decryption undoes
  encryption; no call fails; the digest has \<open>HASH_LEN\<close> bytes.
\<close>

definition aes_ok :: "gcrypt \<Rightarrow> bool" where
  "aes_ok g \<longleftrightarrow>
     (\<forall>k b. length k = CBC_LEN \<and> length b = CBC_LEN \<longrightarrow>
        length (aes_encrypt g k b) = CBC_LEN \<and> length (aes_decrypt g k b) = CBC_LEN \<and>
        aes_decrypt g k (aes_encrypt g k b) = b)"

definition provider_ok :: "gcrypt \<Rightarrow> bool" where
  "provider_ok g \<longleftrightarrow>
     aes_ok g \<and> (\<forall>site. gcry_error g site = 0) \<and> (\<forall>d. length (md_digest g d) = HASH_LEN)"

text \<open>The session and the salt stay inside the arrays \<^verbatim>\<open>lrz_keygen\<close> copies from and to.\<close>

definition session_ok :: "rzip_control \<Rightarrow> uchar list \<Rightarrow> bool" where
  "session_ok c salt \<longleftrightarrow>
     HASH_LEN \<le> length (hash c) \<and> SALT_LEN \<le> length salt \<and> 0 \<le> salt_pass_len c \<and>
     nat (salt_pass_len c) \<le> length (salt_pass c) \<and> salt_pass_len c \<le> int PASS_LEN"

text \<open>The two digests of \<^verbatim>\<open>lrz_keygen\<close>; the cipher uses their first \<open>CBC_LEN\<close> bytes.\<close>

definition keygen_key :: "gcrypt \<Rightarrow> rzip_control \<Rightarrow> uchar list \<Rightarrow> uchar list" where
  "keygen_key g c salt =
     md_digest g (take HASH_LEN (hash c) @ take SALT_LEN salt @
                  take (nat (salt_pass_len c)) (salt_pass c))"

definition keygen_iv :: "gcrypt \<Rightarrow> rzip_control \<Rightarrow> uchar list \<Rightarrow> uchar list" where
  "keygen_iv g c salt =
     md_digest g (keygen_key g c salt @ take SALT_LEN salt @
                  take (nat (salt_pass_len c)) (salt_pass c))"

text \<open>
  The specification of the encrypting transform, in the words of the design: with
  \<open>m = length mod block size\<close> and \<open>n = length - m\<close>, CBC over the first \<open>n\<close> bytes;
  when \<open>m\<close> is not 0, the zero-padded remainder goes through the same CBC chain into a
  full block \<open>t\<close>, the first \<open>m\<close> bytes of the last full ciphertext block move to the
  end and \<open>t\<close> takes that block's place.
\<close>

definition cts_encrypt :: "gcrypt \<Rightarrow> uchar list \<Rightarrow> uchar list \<Rightarrow> uchar list \<Rightarrow> uchar list" where
  "cts_encrypt g k v b =
     (let m = length b mod CBC_LEN; n = length b - m;
          r = cbc_encrypt_blocks g k (n div CBC_LEN) v (take n b)
      in if m = 0 then fst r
         else let t = fst (cbc_encrypt_blocks g k 1 (snd r) (drop n b @ replicate (CBC_LEN - m) 0))
              in take (n - CBC_LEN) (fst r) @ t @ take m (drop (n - CBC_LEN) (fst r)))"

text \<open>The case of a remainder on its own, which is what the design spells out.\<close>

definition cts_tail_encrypt :: "gcrypt \<Rightarrow> uchar list \<Rightarrow> uchar list \<Rightarrow> uchar list \<Rightarrow> uchar list" where
  "cts_tail_encrypt g k v b =
     (let M = length b mod CBC_LEN; N = length b - M;
          r = cbc_encrypt_blocks g k (N div CBC_LEN) v (take N b);
          T = fst (cbc_encrypt_blocks g k 1 (snd r) (drop N b @ replicate (CBC_LEN - M) 0))
      in take (N - CBC_LEN) (fst r) @ T @ take M (drop (N - CBC_LEN) (fst r)))"

text \<open>The same for the decrypting transform, with the ECB step that recovers the tail.\<close>

definition cts_decrypt :: "gcrypt \<Rightarrow> uchar list \<Rightarrow> uchar list \<Rightarrow> uchar list \<Rightarrow> uchar list" where
  "cts_decrypt g k v b =
     (let m = length b mod CBC_LEN; n = length b - m
      in if m = 0 then fst (cbc_decrypt_blocks g k (n div CBC_LEN) v b)
         else let r = cbc_decrypt_blocks g k ((n - CBC_LEN) div CBC_LEN) v (take (n - CBC_LEN) b);
                  t1 = drop n b @ replicate (CBC_LEN - m) 0;
                  x = xor128 (aes_decrypt g k (take CBC_LEN (drop (n - CBC_LEN) b))) t1;
                  c = take m t1 @ drop m x
              in fst r @ xor128 (aes_decrypt g k c) (snd r) @ take m x)"

text \<open>The 25 bytes of a block header.\<close>

definition header_bytes :: "uchar \<Rightarrow> int \<Rightarrow> int \<Rightarrow> int \<Rightarrow> uchar list" where
  "header_bytes ct cl ul lh = ct # le64 cl @ le64 ul @ le64 lh"

section \<open>Properties\<close>

subsection \<open>Conversions and copies inside their bounds\<close>

lemma memcpy_ok:
  "0 \<le> doff \<Longrightarrow> 0 \<le> soff \<Longrightarrow> nat soff + n \<le> length src \<Longrightarrow> nat doff + n \<le> length dst \<Longrightarrow>
   memcpy dst doff src soff n =
     Returned (take (nat doff) dst @ take n (drop (nat soff) src) @ drop (nat doff + n) dst)"
  by (simp add: memcpy_def)

lemma size_t_id: "0 \<le> x \<Longrightarrow> x < 2 ^ 64 \<Longrightarrow> size_t x = nat x"
  by (simp add: size_t_def)

lemma to_i64_id: "- (2 ^ 63) \<le> x \<Longrightarrow> x < 2 ^ 63 \<Longrightarrow> to_i64 x = x"
  by (simp add: to_i64_def)

subsection \<open>The passphrase stretcher\<close>

lemma stretch_loop_acc:
  "n - j \<le> int k \<Longrightarrow> m \<le> length p \<Longrightarrow> size_t (salt_pass_len c) = m \<Longrightarrow> salt_pass c = p \<Longrightarrow>
   stretch_loop j n c (Md_handle acc) =
     Returned (Md_handle (acc @ concat (map (\<lambda>i. le64 i @ take m p) [j..n - 1])))"
proof (induction k arbitrary: j acc)
  case 0
  then show ?case by (simp add: stretch_loop.simps)
next
  case (Suc k)
  show ?case
  proof (cases "j < n")
    case True
    have len: "length (le64 j) = 8" by (simp add: le64_def)
    have ih: "stretch_loop (j + 1) n c (Md_handle ((acc @ le64 j) @ take m p)) =
      Returned (Md_handle (((acc @ le64 j) @ take m p) @
        concat (map (\<lambda>i. le64 i @ take m p) [j + 1..n - 1])))"
      using Suc.prems by (intro Suc.IH) auto
    have up: "[j..n - 1] = j # [j + 1..n - 1]"
      using True by (simp add: upto_rec1)
    show ?thesis
      using True Suc.prems ih
      by (subst stretch_loop.simps) (simp add: len up)
  next
    case False
    then show ?thesis by (simp add: stretch_loop.simps)
  qed
qed

lemma stretch_rounds_exact:
  assumes "0 \<le> encloops c" "encloops c < 2 ^ 57" "0 \<le> salt_pass_len c" "salt_pass_len c < 2 ^ 31"
  shows "stretch_rounds c = Returned (encloops c * 64 div (salt_pass_len c + 8))"
proof -
  have a: "size_t (salt_pass_len c + 8) = nat (salt_pass_len c + 8)"
    using assms by (intro size_t_id) auto
  have b: "to_i64 (encloops c * 64) = encloops c * 64"
    using assms by (intro to_i64_id) auto
  have c: "size_t (encloops c * 64) = nat (encloops c * 64)"
    using assms by (intro size_t_id) auto
  have q0: "0 \<le> encloops c * 64 div (salt_pass_len c + 8)"
    using assms by (simp add: pos_imp_zdiv_nonneg_iff)
  have q1: "encloops c * 64 div (salt_pass_len c + 8) \<le> encloops c * 64"
    using assms zdiv_mono2 [of "encloops c * 64" 1 "salt_pass_len c + 8"] by simp
  have d: "int (nat (encloops c * 64) div nat (salt_pass_len c + 8)) =
           encloops c * 64 div (salt_pass_len c + 8)"
    using assms by (simp add: zdiv_int)
  have e: "to_i64 (encloops c * 64 div (salt_pass_len c + 8)) =
           encloops c * 64 div (salt_pass_len c + 8)"
    using q0 q1 assms by (intro to_i64_id) auto
  show ?thesis
    using assms by (simp add: stretch_rounds_def a b c d e HASH_LEN_def)
qed

text \<open>
  C5. The stretcher runs \<open>n = encloops * 64 div (salt_pass_len + 8)\<close> rounds, and round
  \<open>j\<close>, for \<open>j\<close> from 0 to \<open>n - 1\<close>, appends the eight little-endian bytes of \<open>j\<close> and then
  the passphrase to the one hash state opened at the start: the handle ends with the
  concatenation of all rounds, nothing having been reset. The product
  \<open>encloops * 64\<close> is taken in range of an \<^verbatim>\<open>i64\<close> and the passphrase length in range
  of an \<^verbatim>\<open>int\<close>, and the hash handle is assumed to open.
\<close>

theorem lrz_stretch_rounds:
  assumes "0 \<le> encloops c" "encloops c < 2 ^ 57" "0 \<le> salt_pass_len c" "salt_pass_len c < 2 ^ 31"
    and "nat (salt_pass_len c) \<le> length (salt_pass c)"
    and "gcry_error g Md_open = 0"
  shows "lrz_stretch g c = Returned \<lparr>control_after = c, md_handle = Some (Md_handle
           (concat (map (\<lambda>j. le64 j @ take (nat (salt_pass_len c)) (salt_pass c))
                        [0..encloops c * 64 div (salt_pass_len c + 8) - 1])))\<rparr>"
proof -
  have s: "size_t (salt_pass_len c) = nat (salt_pass_len c)"
    using assms by (intro size_t_id) auto
  have "stretch_loop 0 (encloops c * 64 div (salt_pass_len c + 8)) c (Md_handle []) =
     Returned (Md_handle ([] @ concat (map (\<lambda>i. le64 i @ take (nat (salt_pass_len c)) (salt_pass c))
       [0..encloops c * 64 div (salt_pass_len c + 8) - 1])))"
    using assms(5) s
    by (intro stretch_loop_acc [where k = "nat (encloops c * 64 div (salt_pass_len c + 8))"]) auto
  then show ?thesis
    using assms by (simp add: lrz_stretch_def stretch_rounds_exact gcry_md_open_def)
qed

theorem lrz_stretch_rounds_witness:
  "0 \<le> encloops example_control \<and> encloops example_control < 2 ^ 57 \<and>
   0 \<le> salt_pass_len example_control \<and> salt_pass_len example_control < 2 ^ 31 \<and>
   nat (salt_pass_len example_control) \<le> length (salt_pass example_control) \<and>
   gcry_error example_gcrypt Md_open = 0 \<and>
   lrz_stretch example_gcrypt example_control =
     Returned \<lparr>control_after = example_control, md_handle = Some (Md_handle
       [0, 0, 0, 0, 0, 0, 0, 0, 1, 2, 3,  1, 0, 0, 0, 0, 0, 0, 0, 1, 2, 3,
        2, 0, 0, 0, 0, 0, 0, 0, 1, 2, 3,  3, 0, 0, 0, 0, 0, 0, 0, 1, 2, 3,
        4, 0, 0, 0, 0, 0, 0, 0, 1, 2, 3])\<rparr>"
  using lrz_stretch_rounds [of example_control example_gcrypt]
  by (simp add: example_control_def example_gcrypt_def le64_def upto.simps)

text \<open>
  C3. \<^verbatim>\<open>lrz_stretch\<close> ends with its loop: on the example session it returns with the
  session unchanged, so the stored hash is still the one it had on entry and not the
  digest of what was fed in, and with the hash handle still open.
\<close>

theorem lrz_stretch_keeps_hash_and_handle:
  "lrz_stretch example_gcrypt example_control =
     Returned \<lparr>control_after = example_control, md_handle = Some (Md_handle
       [0, 0, 0, 0, 0, 0, 0, 0, 1, 2, 3,  1, 0, 0, 0, 0, 0, 0, 0, 1, 2, 3,
        2, 0, 0, 0, 0, 0, 0, 0, 1, 2, 3,  3, 0, 0, 0, 0, 0, 0, 0, 1, 2, 3,
        4, 0, 0, 0, 0, 0, 0, 0, 1, 2, 3])\<rparr> \<and>
   hash example_control = replicate 64 7 \<and>
   md_digest example_gcrypt
       [0, 0, 0, 0, 0, 0, 0, 0, 1, 2, 3,  1, 0, 0, 0, 0, 0, 0, 0, 1, 2, 3,
        2, 0, 0, 0, 0, 0, 0, 0, 1, 2, 3,  3, 0, 0, 0, 0, 0, 0, 0, 1, 2, 3,
        4, 0, 0, 0, 0, 0, 0, 0, 1, 2, 3] = replicate 64 55"
  by (simp add: lrz_stretch_def stretch_rounds_def size_t_def to_i64_def HASH_LEN_def
      example_control_def example_gcrypt_def gcry_md_open_def stretch_loop.simps le64_def)

subsection \<open>Key derivation\<close>

lemma lrz_keygen_Returned:
  assumes "HASH_LEN \<le> length (hash c)" "SALT_LEN \<le> length salt"
    and "0 \<le> salt_pass_len c" "nat (salt_pass_len c) \<le> length (salt_pass c)"
    and "salt_pass_len c \<le> int PASS_LEN"
    and "gcry_error g Md_open = 0" "\<forall>d. length (md_digest g d) = HASH_LEN"
    and "length key0 = HASH_LEN" "length iv0 = HASH_LEN"
  shows "lrz_keygen g c salt key0 iv0 =
     Returned (md_digest g (take HASH_LEN (hash c) @ take SALT_LEN salt @
                            take (nat (salt_pass_len c)) (salt_pass c)),
               md_digest g (md_digest g (take HASH_LEN (hash c) @ take SALT_LEN salt @
                                         take (nat (salt_pass_len c)) (salt_pass c))
                            @ take SALT_LEN salt @ take (nat (salt_pass_len c)) (salt_pass c)))"
proof -
  have s: "size_t (salt_pass_len c) = nat (salt_pass_len c)"
    using assms by (intro size_t_id) (auto simp: PASS_LEN_def)
  have s2: "size_t (80 + salt_pass_len c) = 80 + nat (salt_pass_len c)"
    using assms by (subst size_t_id) (auto simp: PASS_LEN_def)
  have d: "\<And>x. length (md_digest g x) = 64"
    using assms by (simp add: HASH_LEN_def)
  show ?thesis
    using assms
    by (simp add: lrz_keygen_def HASH_LEN_def SALT_LEN_def PASS_LEN_def s s2 d memcpy_ok
        gcry_md_open_def)
qed

text \<open>
  C4. With the session hash, the salt and the passphrase inside their bounds, a hash
  handle that opens and a digest of \<open>HASH_LEN\<close> bytes, \<^verbatim>\<open>lrz_keygen\<close> returns as key the
  digest of hash, salt and passphrase in this order, and as iv the digest of that key,
  the salt and the passphrase.
\<close>

theorem lrz_keygen_two_passes:
  assumes "HASH_LEN \<le> length (hash c)" "SALT_LEN \<le> length salt"
    and "0 \<le> salt_pass_len c" "nat (salt_pass_len c) \<le> length (salt_pass c)"
    and "salt_pass_len c \<le> int PASS_LEN"
    and "gcry_error g Md_open = 0" "\<forall>d. length (md_digest g d) = HASH_LEN"
    and "length key0 = HASH_LEN" "length iv0 = HASH_LEN"
  shows "lrz_keygen g c salt key0 iv0 =
     Returned (md_digest g (take HASH_LEN (hash c) @ take SALT_LEN salt @
                            take (nat (salt_pass_len c)) (salt_pass c)),
               md_digest g (md_digest g (take HASH_LEN (hash c) @ take SALT_LEN salt @
                                         take (nat (salt_pass_len c)) (salt_pass c))
                            @ take SALT_LEN salt @ take (nat (salt_pass_len c)) (salt_pass c)))"
  using assms by (rule lrz_keygen_Returned)

theorem lrz_keygen_two_passes_witness:
  "HASH_LEN \<le> length (hash example_control) \<and> SALT_LEN \<le> length example_salt \<and>
   0 \<le> salt_pass_len example_control \<and>
   nat (salt_pass_len example_control) \<le> length (salt_pass example_control) \<and>
   salt_pass_len example_control \<le> int PASS_LEN \<and>
   gcry_error example_gcrypt Md_open = 0 \<and>
   (\<forall>d. length (md_digest example_gcrypt d) = HASH_LEN) \<and>
   lrz_keygen example_gcrypt example_control example_salt (replicate 64 0) (replicate 64 0) =
     Returned (replicate 64 90, replicate 64 173)"
  using lrz_keygen_two_passes [of example_control example_salt example_gcrypt
      "replicate 64 0" "replicate 64 0"]
  by (simp add: example_control_def example_gcrypt_def example_salt_def
      HASH_LEN_def SALT_LEN_def PASS_LEN_def nth_append)

subsection \<open>Invariants of lrz_crypt\<close>

lemma holds_and_then:
  "holds P r \<Longrightarrow> (\<And>s. P s \<Longrightarrow> holds P (f s)) \<Longrightarrow> holds P (and_then r f)"
  by (cases r) auto

lemma obind_Returned: "obind m f = Returned y \<longleftrightarrow> (\<exists>x. m = Returned x \<and> f x = Returned y)"
  by (cases m) auto

lemma obind_UB:
  "(\<And>x. m = Returned x \<Longrightarrow> f x = Undefined_behaviour) \<Longrightarrow> obind m f = Undefined_behaviour"
  by (cases m) auto

lemma observe_Returned: "observe f r = Returned y \<Longrightarrow> \<exists>s. r = Returned s \<and> f s = y"
  by (cases r) auto

lemma memcpy_length: "memcpy dst doff src soff n = Returned r \<Longrightarrow> length r = length dst"
  by (auto simp: memcpy_def split: if_splits)

lemma lrz_keygen_length:
  assumes "lrz_keygen g c salt k v = Returned kv"
  shows "length (fst kv) = length k \<and> length (snd kv) = length v"
  using assms unfolding lrz_keygen_def obind_Returned
  by (auto dest!: memcpy_length)

lemma store_inv: "crypt_inv b s \<Longrightarrow> store p bs s = Returned s' \<Longrightarrow> crypt_inv b s'"
  by (cases "fst p") (auto simp: store_def crypt_inv_def split: if_splits)

lemma store_holds: "crypt_inv b s \<Longrightarrow> holds (crypt_inv b) (lift (store p bs s))"
  by (cases "store p bs s") (auto dest: store_inv)

lemma load_length: "load s p n = Returned bs \<Longrightarrow> length bs = n"
  by (auto simp: load_def split: if_splits)

lemma st_memcpy_holds: "crypt_inv b s \<Longrightarrow> holds (crypt_inv b) (st_memcpy dst src n s)"
  by (cases "load s src n") (auto simp: st_memcpy_def store_holds)

lemma st_memset_holds: "crypt_inv b s \<Longrightarrow> holds (crypt_inv b) (st_memset r c n s)"
  by (simp add: st_memset_def store_holds)

lemma st_xor128_holds: "crypt_inv b s \<Longrightarrow> holds (crypt_inv b) (st_xor128 pa pb s)"
  by (cases "load s (pa, 0) 16"; cases "load s (pb, 0) 16") (auto simp: st_xor128_def store_holds)

lemma set_hd_inv: "crypt_inv b (set_hd m h s) = crypt_inv b s"
  by (cases m) (simp_all add: set_hd_def crypt_inv_def)

lemma events_inv: "crypt_inv b s \<Longrightarrow> event_ok e \<Longrightarrow> crypt_inv b (s\<lparr>events := events s @ [e]\<rparr>)"
  by (simp add: crypt_inv_def)

lemma open_holds: "crypt_inv b s \<Longrightarrow> holds (crypt_inv b) (gcry_cipher_open g site m s)"
  by (simp add: gcry_cipher_open_def set_hd_inv)

lemma close_holds: "crypt_inv b s \<Longrightarrow> holds (crypt_inv b) (gcry_cipher_close m s)"
  by (simp add: gcry_cipher_close_def set_hd_inv)

lemma setkey_holds:
  "crypt_inv b s \<Longrightarrow> holds (crypt_inv b) (gcry_cipher_setkey g site m r CBC_LEN s)"
  by (cases "load s (r, 0) CBC_LEN")
     (auto simp: gcry_cipher_setkey_def set_hd_inv events_inv dest: load_length split: option.splits)

lemma setiv_holds:
  "crypt_inv b s \<Longrightarrow> holds (crypt_inv b) (gcry_cipher_setiv g site m r CBC_LEN s)"
  by (cases "load s (r, 0) CBC_LEN")
     (auto simp: gcry_cipher_setiv_def set_hd_inv events_inv dest: load_length split: option.splits)

lemma crypt_holds:
  "crypt_inv b s \<Longrightarrow> holds (crypt_inv b) (gcry_cipher_crypt g enc site m dst src n s)"
  by (cases "load s src n")
     (auto simp: gcry_cipher_crypt_def set_hd_inv events_inv store_holds split: option.splits)

lemma keygen_holds: "crypt_inv b s \<Longrightarrow> holds (crypt_inv b) (keygen_step g c salt s)"
  by (cases "lrz_keygen g c salt (mem s Key) (mem s Iv)")
     (auto simp: keygen_step_def crypt_inv_def dest: lrz_keygen_length)

lemmas prim_holds = open_holds close_holds setkey_holds setiv_holds crypt_holds keygen_holds
  st_memcpy_holds st_memset_holds st_xor128_holds

lemma setup_holds: "crypt_inv b s \<Longrightarrow> holds (crypt_inv b) (crypt_setup g c salt s)"
  unfolding crypt_setup_def by (intro holds_and_then prim_holds)

lemma encrypt_holds: "crypt_inv b s \<Longrightarrow> holds (crypt_inv b) (crypt_encrypt g M N s)"
  unfolding crypt_encrypt_def gcry_cipher_encrypt_def
  by (intro holds_and_then prim_holds) (auto intro!: holds_and_then prim_holds)

lemma decrypt_holds: "crypt_inv b s \<Longrightarrow> holds (crypt_inv b) (crypt_decrypt g len M N s)"
  unfolding crypt_decrypt_def gcry_cipher_decrypt_def
  by (auto intro!: holds_and_then prim_holds)

lemma init_inv: "crypt_inv b (crypt_init b)"
  by (simp add: crypt_inv_def crypt_init_def)

lemma ret_inv: "crypt_inv b (s\<lparr>ret := x\<rparr>) = crypt_inv b s"
  by (simp add: crypt_inv_def)

lemma body_holds: "holds (crypt_inv b) (crypt_body g c len salt d (crypt_init b))"
  unfolding crypt_body_def Let_def
  by (intro holds_and_then setup_holds init_inv)
     (auto intro!: holds_and_then prim_holds encrypt_holds decrypt_holds simp: ret_inv)

lemma cleanup_Next:
  assumes "crypt_inv b s"
  shows "\<exists>s'. crypt_cleanup s = Next s' \<and> crypt_inv b s' \<and>
     mem s' Key = replicate HASH_LEN 0 \<and> mem s' Iv = replicate HASH_LEN 0 \<and>
     Key \<notin> mlocked s' \<and> Iv \<notin> mlocked s' \<and> ret s' = ret s \<and> mem s' Buf = mem s Buf \<and>
     events s' = events s"
  using assms
  by (simp add: crypt_cleanup_def st_memset_def store_def crypt_inv_def)

text \<open>
  Either the body has no defined behaviour, or it reaches the label \<^verbatim>\<open>error\<close>, by
  falling through or by a jump, and the function returns after the cleanup.
\<close>

lemma lrz_crypt_cases:
  "(crypt_body g c len salt d (crypt_init b) = Abort \<and>
    lrz_crypt g c b len salt d = Undefined_behaviour) \<or>
   (\<exists>s0 s. (crypt_body g c len salt d (crypt_init b) = Next s0 \<or>
             crypt_body g c len salt d (crypt_init b) = Goto_error s0) \<and>
      crypt_inv b s0 \<and> crypt_cleanup s0 = Next s \<and> lrz_crypt g c b len salt d = Returned s \<and>
      crypt_inv b s \<and> mem s Key = replicate HASH_LEN 0 \<and> mem s Iv = replicate HASH_LEN 0 \<and>
      Key \<notin> mlocked s \<and> Iv \<notin> mlocked s \<and> ret s = ret s0 \<and> mem s Buf = mem s0 Buf \<and>
      events s = events s0)"
proof (cases "crypt_body g c len salt d (crypt_init b)")
  case (Next s0)
  then have i: "crypt_inv b s0" using body_holds [of b g c len salt d] by simp
  from cleanup_Next [OF i] i Next show ?thesis
    by (auto simp: lrz_crypt_def)
next
  case (Goto_error s0)
  then have i: "crypt_inv b s0" using body_holds [of b g c len salt d] by simp
  from cleanup_Next [OF i] i Goto_error show ?thesis
    by (auto simp: lrz_crypt_def)
next
  case Abort
  then show ?thesis by (simp add: lrz_crypt_def)
qed

text \<open>The definitions a concrete run unfolds.\<close>

lemmas crypt_eval = lrz_crypt_def crypt_body_def crypt_init_def crypt_setup_def
  crypt_encrypt_def crypt_decrypt_def crypt_cleanup_def keygen_step_def lrz_keygen_def
  memcpy_def size_t_def to_int_def c_rem_def HASH_LEN_def SALT_LEN_def PASS_LEN_def CBC_LEN_def
  gcry_md_open_def gcry_cipher_open_def gcry_cipher_setkey_def gcry_cipher_setiv_def
  gcry_cipher_crypt_def gcry_cipher_encrypt_def gcry_cipher_decrypt_def gcry_cipher_close_def
  get_hd_def set_hd_def load_def store_def st_memcpy_def st_memset_def st_xor128_def
  run_cipher_def xor128_def example_control_def example_gcrypt_def example_salt_def
  failing_at_def example_buf_def key_material_def nth_append Let_def

subsection \<open>Key material on every exit\<close>

text \<open>
  C7. Whenever \<^verbatim>\<open>lrz_crypt\<close> returns, with \<open>ret\<close> true or false, the arrays \<^verbatim>\<open>key\<close>
  and \<^verbatim>\<open>iv\<close> hold \<open>HASH_LEN\<close> zero bytes and are no longer locked; and it does return
  whenever its body reaches the label \<^verbatim>\<open>error\<close>, by falling through or by any of the
  \<^verbatim>\<open>failure_goto\<close> jumps: the cleanup itself cannot go wrong.
\<close>

theorem lrz_crypt_clears_key_material:
  "(lrz_crypt g c b len salt d = Returned s \<longrightarrow>
      mem s Key = replicate HASH_LEN 0 \<and> mem s Iv = replicate HASH_LEN 0 \<and>
      Key \<notin> mlocked s \<and> Iv \<notin> mlocked s) \<and>
   (crypt_body g c len salt d (crypt_init b) \<noteq> Abort \<longrightarrow>
      (\<exists>s'. lrz_crypt g c b len salt d = Returned s'))"
  using lrz_crypt_cases [of g c len salt d b] by auto

lemma example_encrypt_ret:
  "observe ret (lrz_crypt example_gcrypt example_control example_buf 30 example_salt LRZ_ENCRYPT)
     = Returned True"
  by (simp add: crypt_eval)

lemma example_open_fails_ret:
  "observe ret (lrz_crypt (failing_at Cbc_open) example_control example_buf 30 example_salt
     LRZ_ENCRYPT) = Returned False"
  by (simp add: crypt_eval)

lemma example_setkey_fails_ret:
  "observe ret (lrz_crypt (failing_at Ecb_setkey) example_control example_buf 30 example_salt
     LRZ_DECRYPT) = Returned False"
  by (simp add: crypt_eval)

lemma example_tail_fails_ret:
  "observe ret (lrz_crypt (failing_at Cbc_encrypt_tail) example_control example_buf 30
     example_salt LRZ_ENCRYPT) = Returned False"
  by (simp add: crypt_eval)

theorem lrz_crypt_clears_key_material_witness:
  "(\<exists>s. lrz_crypt example_gcrypt example_control example_buf 30 example_salt LRZ_ENCRYPT
          = Returned s \<and> ret s \<and>
        mem s Key = replicate HASH_LEN 0 \<and> mem s Iv = replicate HASH_LEN 0 \<and>
        Key \<notin> mlocked s \<and> Iv \<notin> mlocked s) \<and>
   (\<exists>s. lrz_crypt (failing_at Cbc_open) example_control example_buf 30 example_salt LRZ_ENCRYPT
          = Returned s \<and> \<not> ret s \<and>
        mem s Key = replicate HASH_LEN 0 \<and> mem s Iv = replicate HASH_LEN 0 \<and>
        Key \<notin> mlocked s \<and> Iv \<notin> mlocked s) \<and>
   (\<exists>s. lrz_crypt (failing_at Ecb_setkey) example_control example_buf 30 example_salt LRZ_DECRYPT
          = Returned s \<and> \<not> ret s \<and>
        mem s Key = replicate HASH_LEN 0 \<and> mem s Iv = replicate HASH_LEN 0 \<and>
        Key \<notin> mlocked s \<and> Iv \<notin> mlocked s) \<and>
   (\<exists>s. lrz_crypt (failing_at Cbc_encrypt_tail) example_control example_buf 30 example_salt
          LRZ_ENCRYPT = Returned s \<and> \<not> ret s \<and>
        mem s Key = replicate HASH_LEN 0 \<and> mem s Iv = replicate HASH_LEN 0 \<and>
        Key \<notin> mlocked s \<and> Iv \<notin> mlocked s)"
proof (intro conjI)
  from observe_Returned [OF example_encrypt_ret]
  obtain s where s: "lrz_crypt example_gcrypt example_control example_buf 30 example_salt
      LRZ_ENCRYPT = Returned s" "ret s = True"
    by blast
  with lrz_crypt_clears_key_material [of example_gcrypt example_control example_buf 30
      example_salt LRZ_ENCRYPT s]
  show "\<exists>s. lrz_crypt example_gcrypt example_control example_buf 30 example_salt LRZ_ENCRYPT
          = Returned s \<and> ret s \<and>
        mem s Key = replicate HASH_LEN 0 \<and> mem s Iv = replicate HASH_LEN 0 \<and>
        Key \<notin> mlocked s \<and> Iv \<notin> mlocked s"
    by simp
next
  from observe_Returned [OF example_open_fails_ret]
  obtain s where s: "lrz_crypt (failing_at Cbc_open) example_control example_buf 30 example_salt
      LRZ_ENCRYPT = Returned s" "ret s = False"
    by blast
  with lrz_crypt_clears_key_material [of "failing_at Cbc_open" example_control example_buf 30
      example_salt LRZ_ENCRYPT s]
  show "\<exists>s. lrz_crypt (failing_at Cbc_open) example_control example_buf 30 example_salt
          LRZ_ENCRYPT = Returned s \<and> \<not> ret s \<and>
        mem s Key = replicate HASH_LEN 0 \<and> mem s Iv = replicate HASH_LEN 0 \<and>
        Key \<notin> mlocked s \<and> Iv \<notin> mlocked s"
    by simp
next
  from observe_Returned [OF example_setkey_fails_ret]
  obtain s where s: "lrz_crypt (failing_at Ecb_setkey) example_control example_buf 30
      example_salt LRZ_DECRYPT = Returned s" "ret s = False"
    by blast
  with lrz_crypt_clears_key_material [of "failing_at Ecb_setkey" example_control example_buf 30
      example_salt LRZ_DECRYPT s]
  show "\<exists>s. lrz_crypt (failing_at Ecb_setkey) example_control example_buf 30 example_salt
          LRZ_DECRYPT = Returned s \<and> \<not> ret s \<and>
        mem s Key = replicate HASH_LEN 0 \<and> mem s Iv = replicate HASH_LEN 0 \<and>
        Key \<notin> mlocked s \<and> Iv \<notin> mlocked s"
    by simp
next
  from observe_Returned [OF example_tail_fails_ret]
  obtain s where s: "lrz_crypt (failing_at Cbc_encrypt_tail) example_control example_buf 30
      example_salt LRZ_ENCRYPT = Returned s" "ret s = False"
    by blast
  with lrz_crypt_clears_key_material [of "failing_at Cbc_encrypt_tail" example_control
      example_buf 30 example_salt LRZ_ENCRYPT s]
  show "\<exists>s. lrz_crypt (failing_at Cbc_encrypt_tail) example_control example_buf 30 example_salt
          LRZ_ENCRYPT = Returned s \<and> \<not> ret s \<and>
        mem s Key = replicate HASH_LEN 0 \<and> mem s Iv = replicate HASH_LEN 0 \<and>
        Key \<notin> mlocked s \<and> Iv \<notin> mlocked s"
    by simp
qed

subsection \<open>What the cipher is given\<close>






































subsection \<open>A hash handle that does not open\<close>

lemma keygen_md_fail:
  "gcry_error g Md_open \<noteq> 0 \<Longrightarrow> lrz_keygen g c salt k v = Undefined_behaviour"
  unfolding lrz_keygen_def
  by (intro obind_UB) (simp add: gcry_md_open_def)

text \<open>
  C8, as the code has it. \<^verbatim>\<open>lrz_keygen\<close> returns no status and does not look at the
  status of the hash calls. When \<^verbatim>\<open>gcry_md_open\<close> fails, the write that follows uses a
  handle that is not valid: \<^verbatim>\<open>lrz_crypt\<close> has no defined behaviour from there, so it
  neither reports a failure to its caller nor returns with key material.
\<close>

theorem lrz_crypt_md_failure_unreported:
  "gcry_error g Md_open \<noteq> 0 \<Longrightarrow> lrz_crypt g c b len salt d = Undefined_behaviour"
  by (simp add: lrz_crypt_def crypt_body_def crypt_setup_def keygen_step_def keygen_md_fail)

theorem lrz_crypt_md_failure_unreported_witness:
  "gcry_error (failing_at Md_open) Md_open \<noteq> 0 \<and>
   lrz_crypt (failing_at Md_open) example_control example_buf 30 example_salt LRZ_DECRYPT
     = Undefined_behaviour"
  using lrz_crypt_md_failure_unreported [of "failing_at Md_open" example_control example_buf 30
      example_salt LRZ_DECRYPT]
  by (simp add: failing_at_def)

text \<open>
  The claim that the failure reaches the caller as a derivation failure fails on a run:
  with a hash handle that does not open, neither \<^verbatim>\<open>lrz_keygen\<close> nor \<^verbatim>\<open>lrz_crypt\<close>
  returns at all, so \<^verbatim>\<open>lrz_crypt\<close> does not return false.
\<close>

theorem lrz_keygen_failure_not_propagated:
  "lrz_keygen (failing_at Md_open) example_control example_salt (replicate 64 0) (replicate 64 0)
     = Undefined_behaviour \<and>
   observe ret (lrz_crypt (failing_at Md_open) example_control example_buf 30 example_salt
     LRZ_ENCRYPT) \<noteq> Returned False"
  by (simp add: crypt_eval)

subsection \<open>The header codec\<close>

text \<open>
  C10. When \<^verbatim>\<open>decrypt_header\<close> returns false, the four fields behind its pointers are
  the ones it was called with.
\<close>

theorem decrypt_header_failure_keeps_fields:
  assumes "decrypt_header g c head ct cl ul lh d = Returned h" and "\<not> hdr_ret h"
  shows "c_type h = ct \<and> c_len h = cl \<and> u_len h = ul \<and> last_head h = lh"
  using assms
  by (auto simp: decrypt_header_def obind_Returned Let_def split: if_splits)

lemma example_header_failure:
  "decrypt_header (failing_at Cbc_setiv) example_control (replicate 41 3) 5 1000 (- 2) 77
     LRZ_DECRYPT =
   Returned \<lparr>hdr_ret = False,
             head_mem = replicate 16 3 @ [5] @ le64 1000 @ le64 (- 2) @ le64 77,
             c_type = 5, c_len = 1000, u_len = - 2, last_head = 77\<rparr>"
  by (simp add: decrypt_header_def lrz_decrypt_def crypt_eval le64_def)

theorem decrypt_header_failure_keeps_fields_witness:
  "decrypt_header (failing_at Cbc_setiv) example_control (replicate 41 3) 5 1000 (- 2) 77
     LRZ_DECRYPT =
   Returned \<lparr>hdr_ret = False,
             head_mem = replicate 16 3 @ [5] @ le64 1000 @ le64 (- 2) @ le64 77,
             c_type = 5, c_len = 1000, u_len = - 2, last_head = 77\<rparr> \<and>
   c_type \<lparr>hdr_ret = False,
             head_mem = replicate 16 3 @ [5] @ le64 1000 @ le64 (- 2) @ le64 77,
             c_type = 5, c_len = 1000, u_len = - 2, last_head = 77\<rparr> = 5"
  using decrypt_header_failure_keeps_fields [OF example_header_failure] example_header_failure
  by simp

subsection \<open>Block modes\<close>

lemma length_xor128 [simp]: "length (xor128 a b) = min (length a) (length b)"
  by (simp add: xor128_def)

lemma xor128_append:
  "length a = length c \<Longrightarrow> xor128 (a @ b) (c @ d) = xor128 a c @ xor128 b d"
  by (simp add: xor128_def)

lemma xor128_cancel: "length a = length c \<Longrightarrow> xor128 (xor128 a c) c = a"
proof (induction a arbitrary: c)
  case Nil
  then show ?case by (simp add: xor128_def)
next
  case (Cons x a)
  then obtain y c' where c: "c = y # c'" by (cases c) auto
  have "xor128 (xor128 a c') c' = a" using Cons c by simp
  then show ?case using c by (simp add: xor128_def xor.assoc)
qed

lemma xor128_zero_left: "length c = n \<Longrightarrow> xor128 (replicate n 0) c = c"
proof (induction c arbitrary: n)
  case Nil
  then show ?case by (simp add: xor128_def)
next
  case (Cons y c)
  then obtain n' where "n = Suc n'" by (cases n) auto
  with Cons show ?case by (simp add: xor128_def)
qed

lemma xor128_zero_right: "length c = n \<Longrightarrow> xor128 c (replicate n 0) = c"
proof (induction c arbitrary: n)
  case Nil
  then show ?case by (simp add: xor128_def)
next
  case (Cons y c)
  then obtain n' where "n = Suc n'" by (cases n) auto
  with Cons show ?case by (simp add: xor128_def)
qed

lemma aes_okD:
  assumes "aes_ok g" "length k = CBC_LEN" "length b = CBC_LEN"
  shows "length (aes_encrypt g k b) = CBC_LEN" "length (aes_decrypt g k b) = CBC_LEN"
    "aes_decrypt g k (aes_encrypt g k b) = b"
  using assms by (auto simp: aes_ok_def)

lemma cbc_encrypt_length:
  assumes "aes_ok g" "length k = CBC_LEN"
  shows "length v = CBC_LEN \<Longrightarrow> nb * CBC_LEN \<le> length src \<Longrightarrow>
     length (fst (cbc_encrypt_blocks g k nb v src)) = nb * CBC_LEN \<and>
     length (snd (cbc_encrypt_blocks g k nb v src)) = CBC_LEN"
proof (induction nb arbitrary: v src)
  case 0
  then show ?case by simp
next
  case (Suc nb)
  have l: "length (xor128 (take CBC_LEN src) v) = CBC_LEN"
    using Suc.prems by simp
  have c: "length (aes_encrypt g k (xor128 (take CBC_LEN src) v)) = CBC_LEN"
    using aes_okD(1) [OF assms l] .
  have "nb * CBC_LEN \<le> length (drop CBC_LEN src)" using Suc.prems by simp
  from Suc.IH [OF c this] c show ?case by (simp add: Let_def)
qed

lemma cbc_decrypt_length:
  assumes "aes_ok g" "length k = CBC_LEN"
  shows "length v = CBC_LEN \<Longrightarrow> nb * CBC_LEN \<le> length src \<Longrightarrow>
     length (fst (cbc_decrypt_blocks g k nb v src)) = nb * CBC_LEN \<and>
     length (snd (cbc_decrypt_blocks g k nb v src)) = CBC_LEN"
proof (induction nb arbitrary: v src)
  case 0
  then show ?case by simp
next
  case (Suc nb)
  have l: "length (take CBC_LEN src) = CBC_LEN"
    using Suc.prems by simp
  have c: "length (aes_decrypt g k (take CBC_LEN src)) = CBC_LEN"
    using aes_okD(2) [OF assms l] .
  have "nb * CBC_LEN \<le> length (drop CBC_LEN src)" using Suc.prems by simp
  from Suc.IH [OF l this] c Suc.prems(1) show ?case by (simp add: Let_def)
qed

lemma cbc_encrypt_take:
  "nb * CBC_LEN \<le> n \<Longrightarrow> cbc_encrypt_blocks g k nb v (take n src) = cbc_encrypt_blocks g k nb v src"
proof (induction nb arbitrary: v src n)
  case 0
  then show ?case by simp
next
  case (Suc nb)
  have m: "min CBC_LEN n = CBC_LEN" using Suc.prems by simp
  have "nb * CBC_LEN \<le> n - CBC_LEN" using Suc.prems by simp
  note ih = Suc.IH [OF this]
  show ?case by (simp add: m drop_take ih Let_def)
qed

lemma cbc_decrypt_take:
  "nb * CBC_LEN \<le> n \<Longrightarrow> cbc_decrypt_blocks g k nb v (take n src) = cbc_decrypt_blocks g k nb v src"
proof (induction nb arbitrary: v src n)
  case 0
  then show ?case by simp
next
  case (Suc nb)
  have m: "min CBC_LEN n = CBC_LEN" using Suc.prems by simp
  have "nb * CBC_LEN \<le> n - CBC_LEN" using Suc.prems by simp
  note ih = Suc.IH [OF this]
  show ?case by (simp add: m drop_take ih Let_def)
qed

lemma cbc_decrypt_append:
  "length xs = nb * CBC_LEN \<Longrightarrow> cbc_decrypt_blocks g k nb v (xs @ ys) = cbc_decrypt_blocks g k nb v xs"
  using cbc_decrypt_take [of nb "length xs" g k v "xs @ ys"] by simp

text \<open>Decrypting what was encrypted, with the same chaining value.\<close>

lemma cbc_roundtrip:
  assumes "aes_ok g" "length k = CBC_LEN"
  shows "length v = CBC_LEN \<Longrightarrow> nb * CBC_LEN \<le> length src \<Longrightarrow>
     cbc_decrypt_blocks g k nb v (fst (cbc_encrypt_blocks g k nb v src)) =
       (take (nb * CBC_LEN) src, snd (cbc_encrypt_blocks g k nb v src))"
proof (induction nb arbitrary: v src)
  case 0
  then show ?case by simp
next
  case (Suc nb)
  let ?p = "take CBC_LEN src"
  let ?c = "aes_encrypt g k (xor128 ?p v)"
  let ?r = "cbc_encrypt_blocks g k nb ?c (drop CBC_LEN src)"
  have lp: "length ?p = CBC_LEN" using Suc.prems by simp
  have l: "length (xor128 ?p v) = CBC_LEN" using Suc.prems by simp
  have c: "length ?c = CBC_LEN" using aes_okD(1) [OF assms l] .
  have d: "aes_decrypt g k ?c = xor128 ?p v" using aes_okD(3) [OF assms l] .
  have x: "xor128 (xor128 ?p v) v = ?p" using lp Suc.prems by (intro xor128_cancel) simp
  have n: "nb * CBC_LEN \<le> length (drop CBC_LEN src)" using Suc.prems by simp
  have ih: "cbc_decrypt_blocks g k nb ?c (fst ?r) = (take (nb * CBC_LEN) (drop CBC_LEN src), snd ?r)"
    using Suc.IH [OF c n] .
  have t: "take CBC_LEN src @ take (nb * CBC_LEN) (drop CBC_LEN src) = take (Suc nb * CBC_LEN) src"
    by (simp add: take_add [symmetric] add.commute)
  show ?case
    using c d x ih t by (simp add: Let_def)
qed

text \<open>The last block of a CBC encryption.\<close>

lemma cbc_encrypt_snoc:
  "cbc_encrypt_blocks g k (Suc nb) v src =
     (fst (cbc_encrypt_blocks g k nb v src) @
        aes_encrypt g k (xor128 (take CBC_LEN (drop (nb * CBC_LEN) src)) (snd (cbc_encrypt_blocks g k nb v src))),
      aes_encrypt g k (xor128 (take CBC_LEN (drop (nb * CBC_LEN) src)) (snd (cbc_encrypt_blocks g k nb v src))))"
proof (induction nb arbitrary: v src)
  case 0
  then show ?case by (simp add: Let_def)
next
  case (Suc nb)
  let ?c = "aes_encrypt g k (xor128 (take CBC_LEN src) v)"
  note ih = Suc.IH [of ?c "drop CBC_LEN src"]
  have l: "cbc_encrypt_blocks g k (Suc (Suc nb)) v src =
      (?c @ fst (cbc_encrypt_blocks g k (Suc nb) ?c (drop CBC_LEN src)),
       snd (cbc_encrypt_blocks g k (Suc nb) ?c (drop CBC_LEN src)))"
    by (subst cbc_encrypt_blocks.simps) (simp only: Let_def)
  have r: "cbc_encrypt_blocks g k (Suc nb) v src =
      (?c @ fst (cbc_encrypt_blocks g k nb ?c (drop CBC_LEN src)),
       snd (cbc_encrypt_blocks g k nb ?c (drop CBC_LEN src)))"
    by (subst cbc_encrypt_blocks.simps) (simp only: Let_def)
  have d: "drop (nb * CBC_LEN) (drop CBC_LEN src) = drop (Suc nb * CBC_LEN) src"
    by (simp add: add.commute)
  show ?case
    unfolding l ih d unfolding r by simp
qed

subsection \<open>Ciphertext stealing on lists\<close>

lemma xor128_steal:
  assumes "length a = m" "length ck = CBC_LEN" "m \<le> CBC_LEN"
  shows "xor128 (xor128 (a @ replicate (CBC_LEN - m) 0) ck) (take m ck @ replicate (CBC_LEN - m) 0)
         = a @ drop m ck"
proof -
  have ck: "ck = take m ck @ drop m ck" by simp
  have l1: "length a = length (take m ck)" using assms by simp
  have l2: "length (drop m ck) = CBC_LEN - m" using assms by simp
  have "xor128 (a @ replicate (CBC_LEN - m) 0) ck =
        xor128 a (take m ck) @ xor128 (replicate (CBC_LEN - m) 0) (drop m ck)"
    using xor128_append [OF l1, of "replicate (CBC_LEN - m) 0" "drop m ck"] by simp
  also have "\<dots> = xor128 a (take m ck) @ drop m ck"
    using xor128_zero_left [OF l2] by simp
  finally have s1: "xor128 (a @ replicate (CBC_LEN - m) 0) ck = xor128 a (take m ck) @ drop m ck" .
  have l3: "length (xor128 a (take m ck)) = length (take m ck)" using assms by simp
  have "xor128 (xor128 a (take m ck) @ drop m ck) (take m ck @ replicate (CBC_LEN - m) 0) =
        xor128 (xor128 a (take m ck)) (take m ck) @ xor128 (drop m ck) (replicate (CBC_LEN - m) 0)"
    by (rule xor128_append [OF l3])
  also have "\<dots> = a @ drop m ck"
    using xor128_cancel [OF l1] xor128_zero_right [OF l2] by simp
  finally show ?thesis using s1 by simp
qed

lemma cts_roundtrip_whole:
  assumes ok: "aes_ok g" and k: "length k = CBC_LEN" and v: "length v = CBC_LEN"
    and m0: "length b mod CBC_LEN = 0"
  shows "cts_decrypt g k v (cts_encrypt g k v b) = b \<and> length (cts_encrypt g k v b) = length b"
proof -
  define nb where "nb = length b div CBC_LEN"
  have n: "nb * CBC_LEN = length b" using m0 by (auto simp: nb_def)
  have e: "cts_encrypt g k v b = fst (cbc_encrypt_blocks g k nb v b)"
    using m0 by (simp add: cts_encrypt_def nb_def)
  have l: "length (fst (cbc_encrypt_blocks g k nb v b)) = nb * CBC_LEN"
    using cbc_encrypt_length [OF ok k v, of nb b] n by simp
  have r: "cbc_decrypt_blocks g k nb v (fst (cbc_encrypt_blocks g k nb v b)) =
     (take (nb * CBC_LEN) b, snd (cbc_encrypt_blocks g k nb v b))"
    using cbc_roundtrip [OF ok k v, of nb b] n by simp
  have l': "length (fst (cbc_encrypt_blocks g k nb v b)) = length b" using l n by simp
  have "cts_decrypt g k v (fst (cbc_encrypt_blocks g k nb v b)) = b"
    using m0 n r by (simp add: cts_decrypt_def l' nb_def [symmetric])
  then show ?thesis using e l n by simp
qed

lemma cts_roundtrip_tail:
  assumes ok: "aes_ok g" and k: "length k = CBC_LEN" and v: "length v = CBC_LEN"
    and m0: "length b mod CBC_LEN \<noteq> 0" and len: "CBC_LEN \<le> length b"
  shows "cts_decrypt g k v (cts_encrypt g k v b) = b \<and> length (cts_encrypt g k v b) = length b"
proof -
  have C: "0 < CBC_LEN" by (simp add: CBC_LEN_def)
  define m where "m = length b mod CBC_LEN"
  define n where "n = length b - m"
  define j where "j = n div CBC_LEN - 1"
  have mlt: "m < CBC_LEN" "0 < m" using m0 C by (simp_all add: m_def)
  have nm: "length b = n + m" by (simp add: n_def m_def)
  have ndvd: "n mod CBC_LEN = 0"
    unfolding n_def m_def by (simp add: minus_mod_eq_mult_div)
  have nge: "CBC_LEN \<le> n"
  proof -
    have "n = (length b div CBC_LEN) * CBC_LEN" unfolding n_def m_def by (simp add: minus_mod_eq_div_mult)
    moreover have "1 \<le> length b div CBC_LEN" using len C by (simp add: Suc_le_eq div_greater_zero_iff)
    ultimately show ?thesis by (metis mult_le_mono1 nat_mult_1)
  qed
  have nj: "n = Suc j * CBC_LEN" "n div CBC_LEN = Suc j"
  proof -
    have "n = (n div CBC_LEN) * CBC_LEN" using ndvd by auto
    moreover have "1 \<le> n div CBC_LEN" using nge C by (simp add: Suc_le_eq div_greater_zero_iff)
    ultimately show "n = Suc j * CBC_LEN" "n div CBC_LEN = Suc j" by (simp_all add: j_def)
  qed
  have nj16: "n - CBC_LEN = j * CBC_LEN" using nj by simp
  define tail where "tail = drop n b"
  define pk where "pk = take CBC_LEN (drop (j * CBC_LEN) b)"
  define C' where "C' = fst (cbc_encrypt_blocks g k j v b)"
  define v' where "v' = snd (cbc_encrypt_blocks g k j v b)"
  define ck where "ck = aes_encrypt g k (xor128 pk v')"
  define t where "t = aes_encrypt g k (xor128 (tail @ replicate (CBC_LEN - m) 0) ck)"
  have ltail: "length tail = m" by (simp add: tail_def nm)
  have lpk: "length pk = CBC_LEN" using nj nm by (simp add: pk_def)
  have jl: "j * CBC_LEN \<le> length b" using nj nm by simp
  have lC': "length C' = j * CBC_LEN" and lv': "length v' = CBC_LEN"
    using cbc_encrypt_length [OF ok k v jl] by (simp_all add: C'_def v'_def)
  have lx: "length (xor128 pk v') = CBC_LEN" using lpk lv' by simp
  have lck: "length ck = CBC_LEN" unfolding ck_def by (rule aes_okD(1) [OF ok k lx])
  have lpad: "length (tail @ replicate (CBC_LEN - m) 0) = CBC_LEN" using ltail mlt by simp
  have lxt: "length (xor128 (tail @ replicate (CBC_LEN - m) 0) ck) = CBC_LEN" using lpad lck by simp
  have lt: "length t = CBC_LEN" unfolding t_def by (rule aes_okD(1) [OF ok k lxt])
  have enc: "cbc_encrypt_blocks g k (n div CBC_LEN) v (take n b) = (C' @ ck, ck)"
  proof -
    have "Suc j * CBC_LEN \<le> n" using nj(1) by simp
    then have e1: "cbc_encrypt_blocks g k (Suc j) v (take n b) = cbc_encrypt_blocks g k (Suc j) v b"
      by (rule cbc_encrypt_take)
    have "cbc_encrypt_blocks g k (n div CBC_LEN) v (take n b) = cbc_encrypt_blocks g k (Suc j) v b"
      by (simp only: nj(2) e1)
    also have "\<dots> = (C' @ ck, ck)"
      by (simp only: cbc_encrypt_snoc C'_def v'_def ck_def pk_def)
    finally show ?thesis .
  qed
  have pad16: "take CBC_LEN (tail @ replicate (CBC_LEN - m) 0) = tail @ replicate (CBC_LEN - m) 0"
    using lpad by simp
  have tt0: "fst (cbc_encrypt_blocks g k 1 ck (tail @ replicate (CBC_LEN - m) 0)) = t"
    unfolding One_nat_def cbc_encrypt_blocks.simps Let_def pad16 t_def by simp
  have tt: "fst (cbc_encrypt_blocks g k 1 ck (drop n b @ replicate (CBC_LEN - m) 0)) = t"
    using tt0 by (simp only: tail_def)
  have e: "cts_encrypt g k v b = C' @ t @ take m ck"
    unfolding cts_encrypt_def Let_def m_def [symmetric] n_def [symmetric] enc tt fst_conv snd_conv
    using mlt lC' nj16 by simp
  have le: "length (C' @ t @ take m ck) = n + m"
    using lC' lt lck mlt nj by simp
  have m': "length (C' @ t @ take m ck) mod CBC_LEN = m"
    using le ndvd mlt by (simp add: mod_add_left_eq [symmetric])
  have mm: "(n + m) mod CBC_LEN = m"
    using m' le by simp
  have dec: "cbc_decrypt_blocks g k j v C' = (take (j * CBC_LEN) b, v')"
    using cbc_roundtrip [OF ok k v jl] by (simp add: C'_def v'_def)
  have d1: "cbc_decrypt_blocks g k ((n - CBC_LEN) div CBC_LEN) v (take (n - CBC_LEN) (C' @ t @ take m ck))
            = (take (j * CBC_LEN) b, v')"
    using dec lC' C by (simp add: nj16)
  have d2: "take CBC_LEN (drop (n - CBC_LEN) (C' @ t @ take m ck)) = t"
    using lC' lt by (simp add: nj16)
  have d3: "drop n (C' @ t @ take m ck) = take m ck"
    using lC' lt nj by simp
  have d4: "aes_decrypt g k t = xor128 (tail @ replicate (CBC_LEN - m) 0) ck"
    unfolding t_def by (rule aes_okD(3) [OF ok k lxt])
  have d5: "xor128 (xor128 (tail @ replicate (CBC_LEN - m) 0) ck) (take m ck @ replicate (CBC_LEN - m) 0)
            = tail @ drop m ck"
    using mlt by (intro xor128_steal ltail lck) simp
  have d6: "take m (take m ck @ replicate (CBC_LEN - m) 0) @ drop m (tail @ drop m ck) = ck"
    using lck mlt ltail by simp
  have d7: "aes_decrypt g k ck = xor128 pk v'"
    unfolding ck_def by (rule aes_okD(3) [OF ok k lx])
  have d8: "xor128 (xor128 pk v') v' = pk"
    using lpk lv' by (intro xor128_cancel) simp
  have d9: "take m (tail @ drop m ck) = tail" using ltail by simp
  have fin: "take (j * CBC_LEN) b @ pk @ tail = b"
  proof -
    have "pk @ tail = drop (j * CBC_LEN) b"
      unfolding pk_def tail_def nj
      by (metis add.commute append_take_drop_id drop_drop mult_Suc)
    then show ?thesis by simp
  qed
  have "cts_decrypt g k v (C' @ t @ take m ck) = (if m = 0 then fst (cbc_decrypt_blocks g k (n div CBC_LEN) v (C' @ t @ take m ck)) else take (j * CBC_LEN) b @ pk @ tail)"
    unfolding cts_decrypt_def Let_def le mm diff_add_inverse2 d1 d2 d3 fst_conv snd_conv d4 d5 d6 d7 d8 d9 ..
  then have "cts_decrypt g k v (C' @ t @ take m ck) = b"
    using mlt fin by simp
  then show ?thesis using e le nm by simp
qed

lemma cts_roundtrip:
  assumes "aes_ok g" "length k = CBC_LEN" "length v = CBC_LEN" "CBC_LEN \<le> length b"
  shows "cts_decrypt g k v (cts_encrypt g k v b) = b \<and> length (cts_encrypt g k v b) = length b"
  using assms cts_roundtrip_whole cts_roundtrip_tail by blast

subsection \<open>The statements of lrz_crypt, one by one\<close>

lemma load_ok:
  "0 \<le> off \<Longrightarrow> nat off + n \<le> length (mem s r) \<Longrightarrow>
   load s (r, off) n = Returned (take n (drop (nat off) (mem s r)))"
  by (simp add: load_def)

lemma store_ok:
  "0 \<le> off \<Longrightarrow> nat off + length bs \<le> length (mem s r) \<Longrightarrow>
   store (r, off) bs s = Returned (s\<lparr>mem := (mem s)(r :=
      take (nat off) (mem s r) @ bs @ drop (nat off + length bs) (mem s r))\<rparr>)"
  by (simp add: store_def)

lemma size_t_nat: "n < 2 ^ 31 \<Longrightarrow> size_t (int n) = n"
  by (simp add: size_t_def)

lemma st_memcpy_ex:
  assumes "0 \<le> so" "nat so + n \<le> length (mem s sr)" "0 \<le> d" "nat d + n \<le> length (mem s dr)"
  shows "\<exists>s'. st_memcpy (dr, d) (sr, so) n s = Next s' \<and>
     mem s' = (mem s)(dr := take (nat d) (mem s dr) @ take n (drop (nat so) (mem s sr)) @
                            drop (nat d + n) (mem s dr)) \<and>
     cbc_handle s' = cbc_handle s \<and> ecb_handle s' = ecb_handle s"
  using assms by (simp add: st_memcpy_def load_ok store_ok)

lemma st_memset_ex:
  assumes "n \<le> length (mem s r)"
  shows "\<exists>s'. st_memset r c n s = Next s' \<and>
     mem s' = (mem s)(r := replicate n c @ drop n (mem s r)) \<and>
     cbc_handle s' = cbc_handle s \<and> ecb_handle s' = ecb_handle s"
  using assms by (simp add: st_memset_def store_ok)

lemma st_xor128_ex:
  assumes "16 \<le> length (mem s pa)" "16 \<le> length (mem s pb)"
  shows "\<exists>s'. st_xor128 pa pb s = Next s' \<and>
     mem s' = (mem s)(pa := xor128 (take 16 (mem s pa)) (take 16 (mem s pb)) @ drop 16 (mem s pa)) \<and>
     cbc_handle s' = cbc_handle s \<and> ecb_handle s' = ecb_handle s"
  using assms by (simp add: st_xor128_def load_ok store_ok)

lemma crypt_ex:
  assumes "gcry_error g site = 0" "n mod CBC_LEN = 0" "get_hd m s = Some h"
    and "0 \<le> so" "nat so + n \<le> length (mem s sr)" "0 \<le> d" "nat d + n \<le> length (mem s dr)"
    and "run_cipher g enc h (take n (drop (nat so) (mem s sr))) = (out, h')" "length out = n"
  shows "\<exists>s'. gcry_cipher_crypt g enc site m (dr, d) (sr, so) n s = Next s' \<and>
     mem s' = (mem s)(dr := take (nat d) (mem s dr) @ out @ drop (nat d + n) (mem s dr)) \<and>
     cbc_handle s' = (if m = GCRY_CIPHER_MODE_CBC then Some h' else cbc_handle s) \<and>
     ecb_handle s' = (if m = GCRY_CIPHER_MODE_ECB then Some h' else ecb_handle s)"
  using assms
  by (cases m) (simp_all add: gcry_cipher_crypt_def load_ok store_ok set_hd_def get_hd_def)

lemma crypt_encrypt_Next:
  assumes h: "cbc_handle s = Some h" "hd_mode h = GCRY_CIPHER_MODE_CBC" "hd_key h = k" "hd_iv h = v"
    and ok: "aes_ok g" "length k = CBC_LEN" "length v = CBC_LEN"
    and nf: "gcry_error g Cbc_encrypt = 0" "gcry_error g Cbc_encrypt_tail = 0"
    and B: "mem s Buf = b" "length b = n + m" "n mod CBC_LEN = 0" "m < CBC_LEN"
      "m \<noteq> 0 \<Longrightarrow> CBC_LEN \<le> n" "n < 2 ^ 31"
    and T: "length (mem s Tmp0) = CBC_LEN" "length (mem s Tmp1) = CBC_LEN"
  shows "\<exists>s'. crypt_encrypt g (int m) (int n) s = Next s' \<and> mem s' Buf = cts_encrypt g k v b"
proof -
  define r where "r = cbc_encrypt_blocks g k (n div CBC_LEN) v (take n b)"
  have C: "CBC_LEN = 16" by (simp add: CBC_LEN_def)
  have ndiv: "n div CBC_LEN * CBC_LEN = n" using B(3) by auto
  have ltk: "length (take n b) = n" using B(2) by simp
  have lr: "length (fst r) = n" "length (snd r) = CBC_LEN"
    using cbc_encrypt_length [OF ok(1,2,3), of "n div CBC_LEN" "take n b"] ndiv ltk
    by (simp_all add: r_def)
  have sz: "size_t (int n) = n" "size_t (int m) = m"
    using B by (simp_all add: size_t_nat C)
  have rc: "run_cipher g True h (take n b) = (fst r, h\<lparr>hd_iv := snd r\<rparr>)"
    by (simp add: run_cipher_def h r_def Let_def B(2))
  have mm: "length b mod CBC_LEN = m" "length b - m = n"
    using B by (simp_all add: mod_add_left_eq [symmetric])
  have cts0: "m = 0 \<Longrightarrow> cts_encrypt g k v b = fst r"
    unfolding cts_encrypt_def Let_def mm r_def by simp
  show ?thesis
  proof (cases "m = 0")
    case True
    have rc0: "run_cipher g True h b = (fst r, h\<lparr>hd_iv := snd r\<rparr>)"
      using rc B(2) True by simp
    show ?thesis
      using True h nf B lr
      by (simp add: crypt_encrypt_def gcry_cipher_encrypt_def gcry_cipher_crypt_def sz get_hd_def
          set_hd_def load_ok store_ok rc0 cts0)
  next
    case False
    define pad where "pad = drop n b @ replicate (CBC_LEN - m) 0"
    define t where "t = fst (cbc_encrypt_blocks g k 1 (snd r) pad)"
    have lpad: "length pad = CBC_LEN" using B by (simp add: pad_def)
    have lt: "length t = CBC_LEN"
      using cbc_encrypt_length [OF ok(1,2) lr(2), of 1 pad] lpad by (simp add: t_def)
    have rc2: "run_cipher g True (h\<lparr>hd_iv := snd r\<rparr>) pad =
        (t, h\<lparr>hd_iv := snd (cbc_encrypt_blocks g k 1 (snd r) pad)\<rparr>)"
      using lpad by (simp add: run_cipher_def h t_def Let_def C del: cbc_encrypt_blocks.simps One_nat_def)
    have cts1: "cts_encrypt g k v b = take (n - CBC_LEN) (fst r) @ t @ take m (drop (n - CBC_LEN) (fst r))"
      unfolding cts_encrypt_def Let_def mm r_def t_def pad_def using False by simp
    have nge: "CBC_LEN \<le> n" using B False by simp
    have natd: "nat (int n - int CBC_LEN) = n - CBC_LEN"
      using nge by simp
    show ?thesis
      using h nf B lr False nge T lt lpad [unfolded pad_def] natd
      by (simp add: crypt_encrypt_def gcry_cipher_encrypt_def gcry_cipher_crypt_def sz get_hd_def
          set_hd_def load_ok store_ok rc cts1 st_memset_def st_memcpy_def rc2 [unfolded pad_def]
          del: cbc_encrypt_blocks.simps One_nat_def)
  qed
qed

lemma crypt_decrypt_Next:
  assumes h: "cbc_handle s = Some h" "hd_mode h = GCRY_CIPHER_MODE_CBC" "hd_key h = k" "hd_iv h = v"
    and K: "take CBC_LEN (mem s Key) = k" "CBC_LEN \<le> length (mem s Key)"
    and ok: "aes_ok g" "length k = CBC_LEN" "length v = CBC_LEN"
    and nf: "\<forall>site. gcry_error g site = 0"
    and B: "mem s Buf = b" "length b = n + m" "n mod CBC_LEN = 0" "m < CBC_LEN"
      "m \<noteq> 0 \<Longrightarrow> CBC_LEN \<le> n" "n + m < 2 ^ 31"
    and T: "length (mem s Tmp0) = CBC_LEN" "length (mem s Tmp1) = CBC_LEN"
  shows "\<exists>s'. crypt_decrypt g (int (n + m)) (int m) (int n) s = Next s' \<and>
           mem s' Buf = cts_decrypt g k v b"
proof -
  have C: "CBC_LEN = 16" by (simp add: CBC_LEN_def)
  have mm: "length b mod CBC_LEN = m" "length b - m = n"
    using B by (simp_all add: mod_add_left_eq [symmetric])
  have sz: "size_t (int n) = n" "size_t (int m) = m"
    using B by (simp_all add: size_t_nat C)
  show ?thesis
  proof (cases "m = 0")
    case True
    define r where "r = cbc_decrypt_blocks g k (n div CBC_LEN) v b"
    have ndiv: "n div CBC_LEN * CBC_LEN = n" using B(3) by auto
    have lb: "length b = n" using B True by simp
    have lr: "length (fst r) = n"
      using cbc_decrypt_length [OF ok(1,2,3), of "n div CBC_LEN" b] ndiv lb by (simp add: r_def)
    have rc: "run_cipher g False h (take n (drop (nat 0) (mem s Buf))) = (fst r, h\<lparr>hd_iv := snd r\<rparr>)"
      by (simp add: run_cipher_def h r_def Let_def lb B(1))
    have cts0: "cts_decrypt g k v b = fst r"
      unfolding cts_decrypt_def Let_def mm r_def using True by simp
    have g: "get_hd GCRY_CIPHER_MODE_CBC s = Some h" by (simp add: get_hd_def h)
    have "\<exists>s'. gcry_cipher_crypt g False Cbc_decrypt_all GCRY_CIPHER_MODE_CBC (Buf, 0) (Buf, 0) n s = Next s' \<and>
       mem s' = (mem s)(Buf := take (nat 0) (mem s Buf) @ fst r @ drop (nat 0 + n) (mem s Buf)) \<and>
       cbc_handle s' = (if GCRY_CIPHER_MODE_CBC = GCRY_CIPHER_MODE_CBC then Some (h\<lparr>hd_iv := snd r\<rparr>) else cbc_handle s) \<and>
       ecb_handle s' = (if GCRY_CIPHER_MODE_CBC = GCRY_CIPHER_MODE_ECB then Some (h\<lparr>hd_iv := snd r\<rparr>) else ecb_handle s)"
      using B(1) lb rc lr g
      by (intro crypt_ex [where h = h] nf [rule_format] B(3)) simp_all
    then obtain s1 where s1: "gcry_cipher_crypt g False Cbc_decrypt_all GCRY_CIPHER_MODE_CBC (Buf, 0) (Buf, 0) n s = Next s1"
      "mem s1 Buf = fst r"
      using B(1) lb by auto
    show ?thesis
      using True s1 lb B(1)
      by (simp add: crypt_decrypt_def gcry_cipher_decrypt_def cts0 sz(1))
  next
    case False
    have nge: "CBC_LEN \<le> n" using B False by simp
    define n1 where "n1 = n - CBC_LEN"
    have n1: "n1 + CBC_LEN = n" "n1 mod CBC_LEN = 0" "int n - int CBC_LEN = int n1"
      using nge B(3) by (simp_all add: n1_def mod_diff_right_eq [symmetric] le_mod_geq)
    have sz1: "size_t (int n1) = n1" "size_t (int CBC_LEN - int m) = CBC_LEN - m"
      using B n1(1) by (simp_all add: size_t_def C)
    have n1div: "n1 div CBC_LEN * CBC_LEN = n1" using n1(2) by auto
    define r where "r = cbc_decrypt_blocks g k (n1 div CBC_LEN) v (take n1 b)"
    have ltk: "length (take n1 b) = n1" using B(2) n1(1) by simp
    have lr: "length (fst r) = n1" "length (snd r) = CBC_LEN"
      using cbc_decrypt_length [OF ok(1,2,3), of "n1 div CBC_LEN" "take n1 b"] n1div ltk
      by (simp_all add: r_def)
    define blk where "blk = take CBC_LEN (drop n1 b)"
    define t0 where "t0 = aes_decrypt g k blk"
    define t1 where "t1 = drop n b @ replicate (CBC_LEN - m) 0"
    define x where "x = xor128 t0 t1"
    define c where "c = take m t1 @ drop m x"
    define p where "p = xor128 (aes_decrypt g k c) (snd r)"
    have lblk: "length blk = CBC_LEN" using B n1(1) by (simp add: blk_def)
    have lt0: "length t0 = CBC_LEN" unfolding t0_def by (rule aes_okD(2) [OF ok(1,2) lblk])
    have lt1: "length t1 = CBC_LEN" using B by (simp add: t1_def)
    have lx: "length x = CBC_LEN" using lt0 lt1 by (simp add: x_def)
    have lc: "length c = CBC_LEN" using lt1 lx B by (simp add: c_def)
    have lp: "length p = CBC_LEN"
      using aes_okD(2) [OF ok(1,2) lc] lr by (simp add: p_def)
    have cts1: "cts_decrypt g k v b = fst r @ p @ take m x"
      unfolding cts_decrypt_def Let_def mm r_def p_def c_def x_def t1_def t0_def blk_def n1_def
      using False by simp
    define he where "he = \<lparr>hd_mode = GCRY_CIPHER_MODE_ECB, hd_key = k, hd_iv = replicate CBC_LEN (0::uchar)\<rparr>"
    define h1 where "h1 = h\<lparr>hd_iv := snd r\<rparr>"
    have mn: "min (length b) n1 = n1" using B(2) n1(1) by simp
    have rc1: "run_cipher g False h (take n1 b) = (fst r, h1)"
      by (simp add: run_cipher_def h r_def Let_def mn h1_def)
    have rc2: "run_cipher g False he blk = (t0, he)"
      using lblk by (simp add: run_cipher_def he_def t0_def Let_def C)
    have rc3: "run_cipher g False h1 c = (p, h1\<lparr>hd_iv := c\<rparr>)"
      using lc by (simp add: run_cipher_def h h1_def p_def Let_def C)
    txt \<open>open the ECB handle and set its key\<close>
    define so where "so = set_hd GCRY_CIPHER_MODE_ECB
      (Some \<lparr>hd_mode = GCRY_CIPHER_MODE_ECB, hd_key = [], hd_iv = replicate CBC_LEN 0\<rparr>) s"
    have so: "gcry_cipher_open g Ecb_open GCRY_CIPHER_MODE_ECB s = Next so"
      using nf by (simp add: gcry_cipher_open_def so_def)
    obtain sa where sa: "gcry_cipher_setkey g Ecb_setkey GCRY_CIPHER_MODE_ECB Key CBC_LEN so = Next sa"
      "mem sa Buf = b" "length (mem sa Tmp0) = CBC_LEN" "length (mem sa Tmp1) = CBC_LEN"
      "cbc_handle sa = Some h" "ecb_handle sa = Some he"
      using nf K h B(1) T
      by (simp add: gcry_cipher_setkey_def so_def set_hd_def get_hd_def load_ok he_def)
    txt \<open>CBC over the first \<open>n1\<close> bytes\<close>
    have "\<exists>s'. gcry_cipher_crypt g False Cbc_decrypt_head GCRY_CIPHER_MODE_CBC (Buf, 0) (Buf, 0) n1 sa = Next s' \<and>
       mem s' = (mem sa)(Buf := take (nat 0) (mem sa Buf) @ fst r @ drop (nat 0 + n1) (mem sa Buf)) \<and>
       cbc_handle s' = (if GCRY_CIPHER_MODE_CBC = GCRY_CIPHER_MODE_CBC then Some h1 else cbc_handle sa) \<and>
       ecb_handle s' = (if GCRY_CIPHER_MODE_CBC = GCRY_CIPHER_MODE_ECB then Some h1 else ecb_handle sa)"
      using sa B n1(1) rc1 lr
      by (intro crypt_ex [where h = h] nf [rule_format] n1(2)) (simp_all add: get_hd_def)
    then obtain sb where sb: "gcry_cipher_crypt g False Cbc_decrypt_head GCRY_CIPHER_MODE_CBC (Buf, 0) (Buf, 0) n1 sa = Next sb"
      "mem sb Buf = fst r @ drop n1 b" "length (mem sb Tmp0) = CBC_LEN" "length (mem sb Tmp1) = CBC_LEN"
      "cbc_handle sb = Some h1" "ecb_handle sb = Some he"
      using sa by auto
    txt \<open>ECB on the last full block\<close>
    have "\<exists>s'. gcry_cipher_crypt g False Ecb_decrypt GCRY_CIPHER_MODE_ECB (Tmp0, 0) (Buf, int n1) CBC_LEN sb = Next s' \<and>
       mem s' = (mem sb)(Tmp0 := take (nat 0) (mem sb Tmp0) @ t0 @ drop (nat 0 + CBC_LEN) (mem sb Tmp0)) \<and>
       cbc_handle s' = (if GCRY_CIPHER_MODE_ECB = GCRY_CIPHER_MODE_CBC then Some he else cbc_handle sb) \<and>
       ecb_handle s' = (if GCRY_CIPHER_MODE_ECB = GCRY_CIPHER_MODE_ECB then Some he else ecb_handle sb)"
      using sb B n1(1) rc2 lr lt0
      by (intro crypt_ex [where h = he] nf [rule_format]) (simp_all add: get_hd_def blk_def)
    then obtain sc where sc: "gcry_cipher_crypt g False Ecb_decrypt GCRY_CIPHER_MODE_ECB (Tmp0, 0) (Buf, int n1) CBC_LEN sb = Next sc"
      "mem sc Buf = fst r @ drop n1 b" "mem sc Tmp0 = t0" "length (mem sc Tmp1) = CBC_LEN"
      "cbc_handle sc = Some h1" "ecb_handle sc = Some he"
      using sb by auto
    txt \<open>the partial block, zero-padded\<close>
    from st_memset_ex [of CBC_LEN sc Tmp1 0]
    obtain sd where sd: "st_memset Tmp1 0 CBC_LEN sc = Next sd"
      "mem sd Buf = fst r @ drop n1 b" "mem sd Tmp0 = t0" "mem sd Tmp1 = replicate CBC_LEN 0"
      "cbc_handle sd = Some h1" "ecb_handle sd = Some he"
      using sc by auto
    have "\<exists>s'. st_memcpy (Tmp1, 0) (Buf, int n) m sd = Next s' \<and>
       mem s' = (mem sd)(Tmp1 := take (nat 0) (mem sd Tmp1) @ take m (drop (nat (int n)) (mem sd Buf)) @
                            drop (nat 0 + m) (mem sd Tmp1)) \<and>
       cbc_handle s' = cbc_handle sd \<and> ecb_handle s' = ecb_handle sd"
      using sd B lr n1(1) by (intro st_memcpy_ex) simp_all
    then obtain se where se: "st_memcpy (Tmp1, 0) (Buf, int n) m sd = Next se"
      "mem se Buf = fst r @ drop n1 b" "mem se Tmp0 = t0" "mem se Tmp1 = t1"
      "cbc_handle se = Some h1" "ecb_handle se = Some he"
      using sd B lr n1(1) by (auto simp: t1_def)
    txt \<open>recover the tail and the stolen bytes\<close>
    from st_xor128_ex [of se Tmp0 Tmp1]
    obtain sf where sf: "st_xor128 Tmp0 Tmp1 se = Next sf"
      "mem sf Buf = fst r @ drop n1 b" "mem sf Tmp0 = x" "mem sf Tmp1 = t1"
      "cbc_handle sf = Some h1" "ecb_handle sf = Some he"
      using se lt0 lt1 by (auto simp: C x_def)
    have "\<exists>s'. st_memcpy (Buf, int n) (Tmp0, 0) m sf = Next s' \<and>
       mem s' = (mem sf)(Buf := take (nat (int n)) (mem sf Buf) @ take m (drop (nat 0) (mem sf Tmp0)) @
                            drop (nat (int n) + m) (mem sf Buf)) \<and>
       cbc_handle s' = cbc_handle sf \<and> ecb_handle s' = ecb_handle sf"
      using sf B lr lx n1(1) by (intro st_memcpy_ex) simp_all
    then obtain sg where sg: "st_memcpy (Buf, int n) (Tmp0, 0) m sf = Next sg"
      "mem sg Buf = fst r @ blk @ take m x" "mem sg Tmp0 = x" "mem sg Tmp1 = t1"
      "cbc_handle sg = Some h1" "ecb_handle sg = Some he"
      using sf B lr n1(1) by (auto simp: blk_def)
    have "\<exists>s'. st_memcpy (Tmp1, int m) (Tmp0, int m) (CBC_LEN - m) sg = Next s' \<and>
       mem s' = (mem sg)(Tmp1 := take (nat (int m)) (mem sg Tmp1) @
                            take (CBC_LEN - m) (drop (nat (int m)) (mem sg Tmp0)) @
                            drop (nat (int m) + (CBC_LEN - m)) (mem sg Tmp1)) \<and>
       cbc_handle s' = cbc_handle sg \<and> ecb_handle s' = ecb_handle sg"
      using sg B lx lt1 by (intro st_memcpy_ex) simp_all
    then obtain sh where sh: "st_memcpy (Tmp1, int m) (Tmp0, int m) (CBC_LEN - m) sg = Next sh"
      "mem sh Buf = fst r @ blk @ take m x" "mem sh Tmp0 = x" "mem sh Tmp1 = c"
      "cbc_handle sh = Some h1" "ecb_handle sh = Some he"
      using sg B lx lt1 by (auto simp: c_def)
    txt \<open>CBC on the rebuilt last ciphertext block\<close>
    have "\<exists>s'. gcry_cipher_crypt g False Cbc_decrypt_final GCRY_CIPHER_MODE_CBC (Buf, int n1) (Tmp1, 0) CBC_LEN sh = Next s' \<and>
       mem s' = (mem sh)(Buf := take (nat (int n1)) (mem sh Buf) @ p @ drop (nat (int n1) + CBC_LEN) (mem sh Buf)) \<and>
       cbc_handle s' = (if GCRY_CIPHER_MODE_CBC = GCRY_CIPHER_MODE_CBC then Some (h1\<lparr>hd_iv := c\<rparr>) else cbc_handle sh) \<and>
       ecb_handle s' = (if GCRY_CIPHER_MODE_CBC = GCRY_CIPHER_MODE_ECB then Some (h1\<lparr>hd_iv := c\<rparr>) else ecb_handle sh)"
      using sh rc3 lr lc lp lblk
      by (intro crypt_ex [where h = h1] nf [rule_format]) (simp_all add: get_hd_def C)
    then obtain si where si: "gcry_cipher_crypt g False Cbc_decrypt_final GCRY_CIPHER_MODE_CBC (Buf, int n1) (Tmp1, 0) CBC_LEN sh = Next si"
      "mem si Buf = fst r @ p @ take m x"
      using sh lr lblk by auto
    show ?thesis
      using False so sa(1) sb(1) sc(1) sd(1) se(1) sf(1) sg(1) sh(1) si
      by (simp add: crypt_decrypt_def gcry_cipher_decrypt_def gcry_cipher_close_def set_hd_def
          sz sz1 n1(3) cts1)
  qed
qed

subsection \<open>The whole transform\<close>

lemma keygen_ok:
  assumes "provider_ok g" "session_ok c salt" "length k0 = HASH_LEN" "length v0 = HASH_LEN"
  shows "lrz_keygen g c salt k0 v0 = Returned (keygen_key g c salt, keygen_iv g c salt)"
  unfolding keygen_key_def keygen_iv_def
  using assms unfolding provider_ok_def session_ok_def
  by (intro lrz_keygen_Returned) auto

lemma crypt_setup_Next:
  assumes "provider_ok g" "session_ok c salt"
  shows "\<exists>s. crypt_setup g c salt (crypt_init b) = Next s \<and> mem s Buf = b \<and>
     mem s Key = keygen_key g c salt \<and>
     length (mem s Tmp0) = CBC_LEN \<and> length (mem s Tmp1) = CBC_LEN \<and>
     cbc_handle s = Some \<lparr>hd_mode = GCRY_CIPHER_MODE_CBC,
                           hd_key = take CBC_LEN (keygen_key g c salt),
                           hd_iv = take CBC_LEN (keygen_iv g c salt)\<rparr>"
proof -
  have kg: "lrz_keygen g c salt (replicate HASH_LEN 0) (replicate HASH_LEN 0) =
      Returned (keygen_key g c salt, keygen_iv g c salt)"
    using assms by (intro keygen_ok) simp_all
  have l: "length (keygen_key g c salt) = HASH_LEN" "length (keygen_iv g c salt) = HASH_LEN"
    using assms(1) by (simp_all add: provider_ok_def keygen_key_def keygen_iv_def)
  have nf: "\<And>site. gcry_error g site = 0" using assms(1) by (simp add: provider_ok_def)
  have c: "CBC_LEN \<le> HASH_LEN" by (simp add: CBC_LEN_def HASH_LEN_def)
  show ?thesis
    using l c
    by (simp add: crypt_setup_def keygen_step_def crypt_init_def kg nf gcry_cipher_open_def
        gcry_cipher_setkey_def gcry_cipher_setiv_def set_hd_def get_hd_def load_ok)
qed

lemma c_rem_nat: "c_rem (int L) (int CBC_LEN) = int (L mod CBC_LEN)"
  by (cases "L = 0") (simp_all add: c_rem_def zmod_int)

lemma to_int_nat: "n < 2 ^ 31 \<Longrightarrow> to_int (int n) = int n"
  by (simp add: to_int_def)

text \<open>The whole call, for a buffer of at least one block that an \<^verbatim>\<open>int\<close> can measure.\<close>

lemma lrz_crypt_buf:
  assumes p: "provider_ok g" and se: "session_ok c salt"
    and len: "CBC_LEN \<le> length b" "length b < 2 ^ 31"
  shows "\<exists>s. lrz_crypt g c b (int (length b)) salt d = Returned s \<and> ret s \<and>
     mem s Buf = (if d = LRZ_ENCRYPT
        then cts_encrypt g (take CBC_LEN (keygen_key g c salt)) (take CBC_LEN (keygen_iv g c salt)) b
        else cts_decrypt g (take CBC_LEN (keygen_key g c salt)) (take CBC_LEN (keygen_iv g c salt)) b)"
proof -
  define k where "k = take CBC_LEN (keygen_key g c salt)"
  define v where "v = take CBC_LEN (keygen_iv g c salt)"
  define m where "m = length b mod CBC_LEN"
  define n where "n = length b - m"
  have C: "0 < CBC_LEN" by (simp add: CBC_LEN_def)
  have l: "length (keygen_key g c salt) = HASH_LEN" "length (keygen_iv g c salt) = HASH_LEN"
    using p by (simp_all add: provider_ok_def keygen_key_def keygen_iv_def)
  have lk: "length k = CBC_LEN" "length v = CBC_LEN"
    using l by (simp_all add: k_def v_def CBC_LEN_def HASH_LEN_def)
  have ok: "aes_ok g" and nf: "\<forall>site. gcry_error g site = 0"
    using p by (simp_all add: provider_ok_def)
  have nm: "length b = n + m" by (simp add: n_def m_def)
  have ndvd: "n mod CBC_LEN = 0" unfolding n_def m_def by (simp add: minus_mod_eq_mult_div)
  have mlt: "m < CBC_LEN" using C by (simp add: m_def)
  have nge: "m \<noteq> 0 \<Longrightarrow> CBC_LEN \<le> n"
  proof -
    have "n = (length b div CBC_LEN) * CBC_LEN" unfolding n_def m_def by (simp add: minus_mod_eq_div_mult)
    moreover have "1 \<le> length b div CBC_LEN" using len C by (simp add: Suc_le_eq div_greater_zero_iff)
    ultimately show ?thesis by (metis mult_le_mono1 nat_mult_1)
  qed
  have nlt: "n < 2 ^ 31" "n + m < 2 ^ 31" using len nm by simp_all
  have M: "c_rem (int (length b)) (int CBC_LEN) = int m" by (simp add: c_rem_nat m_def)
  have N: "to_int (int (length b) - int m) = int n"
    using to_int_nat [OF nlt(1)] nm by simp
  from crypt_setup_Next [OF p se, of b]
  obtain s1 where s1: "crypt_setup g c salt (crypt_init b) = Next s1" "mem s1 Buf = b"
    "mem s1 Key = keygen_key g c salt" "length (mem s1 Tmp0) = CBC_LEN" "length (mem s1 Tmp1) = CBC_LEN"
    "cbc_handle s1 = Some \<lparr>hd_mode = GCRY_CIPHER_MODE_CBC, hd_key = k, hd_iv = v\<rparr>"
    unfolding k_def v_def by blast
  have kk: "take CBC_LEN (mem s1 Key) = k" "CBC_LEN \<le> length (mem s1 Key)"
    using s1(3) l by (simp_all add: k_def CBC_LEN_def HASH_LEN_def)
  let ?res = "if d = LRZ_ENCRYPT then cts_encrypt g k v b else cts_decrypt g k v b"
  have "\<exists>s2. (if d = LRZ_ENCRYPT then crypt_encrypt g (int m) (int n) s1
               else crypt_decrypt g (int (length b)) (int m) (int n) s1) = Next s2 \<and>
              mem s2 Buf = ?res"
  proof (cases "d = LRZ_ENCRYPT")
    case True
    from crypt_encrypt_Next [OF s1(6) _ _ _ ok lk _ _ s1(2) nm ndvd mlt nge nlt(1) s1(4,5)] nf
    show ?thesis using True by simp
  next
    case False
    from crypt_decrypt_Next [OF s1(6) _ _ _ kk ok lk nf s1(2) nm ndvd mlt nge nlt(2) s1(4,5)]
    show ?thesis using False nm by simp
  qed
  then obtain s2 where s2: "(if d = LRZ_ENCRYPT then crypt_encrypt g (int m) (int n) s1
               else crypt_decrypt g (int (length b)) (int m) (int n) s1) = Next s2"
    "mem s2 Buf = ?res" by blast
  have body: "crypt_body g c (int (length b)) salt d (crypt_init b) =
      Next (set_hd GCRY_CIPHER_MODE_CBC None s2\<lparr>ret := True\<rparr>)"
    unfolding crypt_body_def Let_def M N s1(1) using s2(1)
    by (simp add: gcry_cipher_close_def)
  from lrz_crypt_cases [of g c "int (length b)" salt d b] body
  obtain s where "lrz_crypt g c b (int (length b)) salt d = Returned s"
    "ret s = True" "mem s Buf = mem s2 Buf"
    by (auto simp: set_hd_def)
  then show ?thesis using s2(2) by (auto simp: k_def v_def)
qed


lemma example_aes_ok: "aes_ok example_gcrypt"
  by (simp add: aes_ok_def example_gcrypt_def xor128_cancel)

lemma example_provider_ok: "provider_ok example_gcrypt"
  using example_aes_ok by (simp add: provider_ok_def example_gcrypt_def HASH_LEN_def)

lemma example_session_ok: "session_ok example_control example_salt"
  by (simp add: session_ok_def example_control_def example_salt_def HASH_LEN_def SALT_LEN_def
      PASS_LEN_def)

lemma cts_encrypt_tail:
  "length b mod CBC_LEN \<noteq> 0 \<Longrightarrow> cts_encrypt g k v b = cts_tail_encrypt g k v b"
  by (simp add: cts_encrypt_def cts_tail_encrypt_def Let_def)

text \<open>
  C2, as the code has it. For a buffer of at least one block (and shorter than
  \<open>2 ^ 31\<close> bytes, the range of the \<^verbatim>\<open>int\<close> that holds \<open>N\<close>) whose length is not a
  multiple of the block size, encryption returns true and leaves what
  \<open>cts_tail_encrypt\<close> describes under the first 16 bytes of the derived key and iv: the
  CBC encryption of the first \<open>N\<close> bytes, except that its last block, at \<open>N - 16\<close>, is
  replaced by \<open>T\<close>, the CBC encryption of the zero-padded remainder in the same chain,
  and that the first \<open>M\<close> bytes of that last block follow at \<open>N\<close>. The output has the
  length of the input.
\<close>

theorem lrz_crypt_encrypt_steals:
  assumes "provider_ok g" "session_ok c salt"
    and "CBC_LEN \<le> length b" "length b < 2 ^ 31" "length b mod CBC_LEN \<noteq> 0"
  shows "\<exists>s. lrz_crypt g c b (int (length b)) salt LRZ_ENCRYPT = Returned s \<and> ret s \<and>
     mem s Buf = cts_tail_encrypt g (take CBC_LEN (keygen_key g c salt))
                   (take CBC_LEN (keygen_iv g c salt)) b \<and>
     length (mem s Buf) = length b"
proof -
  define k where "k = take CBC_LEN (keygen_key g c salt)"
  define v where "v = take CBC_LEN (keygen_iv g c salt)"
  have l: "length (keygen_key g c salt) = HASH_LEN" "length (keygen_iv g c salt) = HASH_LEN"
    using assms(1) by (simp_all add: provider_ok_def keygen_key_def keygen_iv_def)
  have lk: "length k = CBC_LEN" "length v = CBC_LEN"
    using l by (simp_all add: k_def v_def CBC_LEN_def HASH_LEN_def)
  have ok: "aes_ok g" using assms(1) by (simp add: provider_ok_def)
  from lrz_crypt_buf [OF assms(1,2,3,4), of LRZ_ENCRYPT]
  obtain s where s: "lrz_crypt g c b (int (length b)) salt LRZ_ENCRYPT = Returned s" "ret s"
    "mem s Buf = cts_encrypt g k v b"
    by (auto simp: k_def v_def)
  have len: "length (cts_encrypt g k v b) = length b"
    using cts_roundtrip [OF ok lk assms(3)] by simp
  have "mem s Buf = cts_tail_encrypt g k v b"
    using s(3) cts_encrypt_tail [OF assms(5)] by simp
  moreover have "length (mem s Buf) = length b"
    using s(3) len by simp
  ultimately show ?thesis
    using s(1,2) unfolding k_def v_def by blast
qed

lemma example_encrypt_formula:
  "cts_tail_encrypt example_gcrypt
     (take CBC_LEN (keygen_key example_gcrypt example_control example_salt))
     (take CBC_LEN (keygen_iv example_gcrypt example_control example_salt)) example_buf =
   [172, 175, 176, 180, 180, 176, 176, 188, 188, 176, 176, 180, 180, 176, 176, 172,
    231, 248, 249, 250, 251, 252, 253, 254, 255, 240, 241, 242, 243, 244]"
  by code_simp

theorem lrz_crypt_encrypt_steals_witness:
  "CBC_LEN \<le> length example_buf \<and> length example_buf < 2 ^ 31 \<and>
   length example_buf mod CBC_LEN \<noteq> 0 \<and>
   (\<exists>s. lrz_crypt example_gcrypt example_control example_buf 30 example_salt LRZ_ENCRYPT
          = Returned s \<and> ret s \<and>
        mem s Buf = [172, 175, 176, 180, 180, 176, 176, 188, 188, 176, 176, 180, 180, 176, 176,
                     172, 231, 248, 249, 250, 251, 252, 253, 254, 255, 240, 241, 242, 243, 244])"
proof -
  have h: "CBC_LEN \<le> length example_buf" "length example_buf < 2 ^ 31"
    "length example_buf mod CBC_LEN \<noteq> 0"
    by (simp_all add: example_buf_def CBC_LEN_def)
  have n: "int (length example_buf) = 30" by (simp add: example_buf_def)
  from lrz_crypt_encrypt_steals [OF example_provider_ok example_session_ok h]
  obtain s where "lrz_crypt example_gcrypt example_control example_buf 30 example_salt
      LRZ_ENCRYPT = Returned s" "ret s"
    "mem s Buf = [172, 175, 176, 180, 180, 176, 176, 188, 188, 176, 176, 180, 180, 176, 176,
                  172, 231, 248, 249, 250, 251, 252, 253, 254, 255, 240, 241, 242, 243, 244]"
    unfolding example_encrypt_formula n by blast
  then show ?thesis using h by blast
qed

text \<open>
  The claim itself, for every length that is not a multiple of 16, fails on a run: a
  buffer of 7 bytes has no block at \<open>N - 16\<close>, the copy from there is outside the
  buffer and the call has no defined result. The same holds past \<open>2 ^ 31\<close> bytes, where
  \<open>N\<close> does not fit its \<^verbatim>\<open>int\<close>.
\<close>

theorem lrz_crypt_encrypt_short_tail:
  "lrz_crypt example_gcrypt example_control [1, 2, 3, 4, 5, 6, 7] 7 example_salt LRZ_ENCRYPT
     = Undefined_behaviour \<and>
   lrz_crypt example_gcrypt example_control (replicate (2 ^ 31 + 5) 0) (2 ^ 31 + 5) example_salt
     LRZ_ENCRYPT = Undefined_behaviour"
  by (simp add: crypt_eval)

text \<open>
  C1, as the code has it. For a buffer of at least one block and shorter than \<open>2 ^ 31\<close>
  bytes, a session inside its bounds and a library whose calls succeed, encrypting and
  then decrypting (or validating) with the same session and salt returns true twice,
  keeps the length and restores the buffer, whether or not the length is a multiple of
  the block size.
\<close>

theorem lrz_crypt_roundtrip:
  assumes "provider_ok g" "session_ok c salt"
    and "CBC_LEN \<le> length b" "length b < 2 ^ 31" "d \<noteq> LRZ_ENCRYPT"
  shows "\<exists>s1 s2. lrz_crypt g c b (int (length b)) salt LRZ_ENCRYPT = Returned s1 \<and> ret s1 \<and>
     length (mem s1 Buf) = length b \<and>
     lrz_crypt g c (mem s1 Buf) (int (length b)) salt d = Returned s2 \<and> ret s2 \<and>
     mem s2 Buf = b"
proof -
  define k where "k = take CBC_LEN (keygen_key g c salt)"
  define v where "v = take CBC_LEN (keygen_iv g c salt)"
  have l: "length (keygen_key g c salt) = HASH_LEN" "length (keygen_iv g c salt) = HASH_LEN"
    using assms(1) by (simp_all add: provider_ok_def keygen_key_def keygen_iv_def)
  have lk: "length k = CBC_LEN" "length v = CBC_LEN"
    using l by (simp_all add: k_def v_def CBC_LEN_def HASH_LEN_def)
  have ok: "aes_ok g" using assms(1) by (simp add: provider_ok_def)
  from lrz_crypt_buf [OF assms(1,2,3,4), of LRZ_ENCRYPT]
  obtain s1 where s1: "lrz_crypt g c b (int (length b)) salt LRZ_ENCRYPT = Returned s1" "ret s1"
    "mem s1 Buf = cts_encrypt g k v b"
    by (auto simp: k_def v_def)
  have rt: "cts_decrypt g k v (cts_encrypt g k v b) = b" "length (cts_encrypt g k v b) = length b"
    using cts_roundtrip [OF ok lk assms(3)] by simp_all
  have len1: "CBC_LEN \<le> length (mem s1 Buf)" "length (mem s1 Buf) < 2 ^ 31"
    "length (mem s1 Buf) = length b"
    using s1(3) rt(2) assms(3,4) by simp_all
  from lrz_crypt_buf [OF assms(1,2) len1(1,2), of d]
  obtain s2 where s2: "lrz_crypt g c (mem s1 Buf) (int (length b)) salt d = Returned s2" "ret s2"
    "mem s2 Buf = cts_decrypt g k v (mem s1 Buf)"
    using assms(5) len1(3) by (auto simp: k_def v_def)
  show ?thesis
    using s1 s2 rt len1(3) by auto
qed

theorem lrz_crypt_roundtrip_witness:
  "(\<exists>s1 s2. lrz_crypt example_gcrypt example_control example_buf 30 example_salt LRZ_ENCRYPT
        = Returned s1 \<and> ret s1 \<and> length (mem s1 Buf) = 30 \<and>
      lrz_crypt example_gcrypt example_control (mem s1 Buf) 30 example_salt LRZ_DECRYPT
        = Returned s2 \<and> ret s2 \<and> mem s2 Buf = example_buf) \<and>
   (\<exists>s1 s2. lrz_crypt example_gcrypt example_control (take 16 example_buf) 16 example_salt
        LRZ_ENCRYPT = Returned s1 \<and> ret s1 \<and> length (mem s1 Buf) = 16 \<and>
      lrz_crypt example_gcrypt example_control (mem s1 Buf) 16 example_salt LRZ_DECRYPT
        = Returned s2 \<and> ret s2 \<and> mem s2 Buf = take 16 example_buf)"
proof
  have h: "CBC_LEN \<le> length example_buf" "length example_buf < 2 ^ 31"
    by (simp_all add: example_buf_def CBC_LEN_def)
  have n: "int (length example_buf) = 30" "length example_buf = 30"
    by (simp_all add: example_buf_def)
  from lrz_crypt_roundtrip [OF example_provider_ok example_session_ok h, of LRZ_DECRYPT]
  show "\<exists>s1 s2. lrz_crypt example_gcrypt example_control example_buf 30 example_salt LRZ_ENCRYPT
        = Returned s1 \<and> ret s1 \<and> length (mem s1 Buf) = 30 \<and>
      lrz_crypt example_gcrypt example_control (mem s1 Buf) 30 example_salt LRZ_DECRYPT
        = Returned s2 \<and> ret s2 \<and> mem s2 Buf = example_buf"
    unfolding n by simp
next
  have h: "CBC_LEN \<le> length (take 16 example_buf)" "length (take 16 example_buf) < 2 ^ 31"
    by (simp_all add: example_buf_def CBC_LEN_def)
  have n: "int (length (take 16 example_buf)) = 16" "length (take 16 example_buf) = 16"
    by (simp_all add: example_buf_def)
  from lrz_crypt_roundtrip [OF example_provider_ok example_session_ok h, of LRZ_DECRYPT]
  show "\<exists>s1 s2. lrz_crypt example_gcrypt example_control (take 16 example_buf) 16 example_salt
        LRZ_ENCRYPT = Returned s1 \<and> ret s1 \<and> length (mem s1 Buf) = 16 \<and>
      lrz_crypt example_gcrypt example_control (mem s1 Buf) 16 example_salt LRZ_DECRYPT
        = Returned s2 \<and> ret s2 \<and> mem s2 Buf = take 16 example_buf"
    unfolding n by simp
qed

text \<open>
  The claim for every length from 1 on fails on a run: on a buffer of 5 bytes neither
  direction has a defined result, since both go to \<open>buf + N - 16\<close> with \<open>N = 0\<close>. Nor
  does a buffer of \<open>2 ^ 31\<close> bytes get encrypted: \<open>N\<close> is negative as an \<^verbatim>\<open>int\<close>.
\<close>

theorem lrz_crypt_short_buffer:
  "lrz_crypt example_gcrypt example_control [1, 2, 3, 4, 5] 5 example_salt LRZ_ENCRYPT
     = Undefined_behaviour \<and>
   lrz_crypt example_gcrypt example_control [1, 2, 3, 4, 5] 5 example_salt LRZ_DECRYPT
     = Undefined_behaviour \<and>
   lrz_crypt example_gcrypt example_control (replicate (2 ^ 31) 0) (2 ^ 31) example_salt
     LRZ_ENCRYPT = Undefined_behaviour"
  by (simp add: crypt_eval)

subsection \<open>The layout of the header\<close>

lemma memcpy_take_src:
  "n \<le> length src \<Longrightarrow> memcpy dst doff (take n src) 0 n = memcpy dst doff src 0 n"
  by (simp add: memcpy_def)

lemma lrz_keygen_salt:
  "SALT_LEN \<le> length salt \<Longrightarrow> lrz_keygen g c (take SALT_LEN salt) k v = lrz_keygen g c salt k v"
  by (simp add: lrz_keygen_def memcpy_take_src)

lemma lrz_crypt_salt:
  "SALT_LEN \<le> length salt \<Longrightarrow> lrz_crypt g c b len (take SALT_LEN salt) d = lrz_crypt g c b len salt d"
  by (simp add: lrz_crypt_def crypt_body_def crypt_setup_def keygen_step_def lrz_keygen_salt)

lemma length_le64: "length (le64 x) = 8"
  by (simp add: le64_def)

lemma length_header_bytes: "length (header_bytes ct cl ul lh) = 25"
  by (simp add: header_bytes_def length_le64)

lemma pack_header:
  assumes "SALT_LEN + 25 \<le> length head"
  shows "obind (memcpy head (int SALT_LEN) [ct] 0 1) (\<lambda>h1.
         obind (memcpy h1 (int SALT_LEN + 1) (le64 cl) 0 8) (\<lambda>h2.
         obind (memcpy h2 (int SALT_LEN + 9) (le64 ul) 0 8) (\<lambda>h3.
         obind (memcpy h3 (int SALT_LEN + 17) (le64 lh) 0 8) f)))
       = f (take SALT_LEN head @ header_bytes ct cl ul lh @ drop (SALT_LEN + 25) head)"
proof -
  obtain salt rest where h: "head = salt @ rest" "length salt = 16" "25 \<le> length rest"
    using assms by (intro that [of "take 16 head" "drop 16 head"]) (auto simp: SALT_LEN_def)
  obtain r1 r2 where r: "rest = r1 @ r2" "length r1 = 25"
    using h by (intro that [of "take 25 rest" "drop 25 rest"]) auto
  obtain a r1' where a: "r1 = a # r1'" "length r1' = 24"
    using r by (cases r1) auto
  obtain x1 y1 where x1: "r1' = x1 @ y1" "length x1 = 8" "length y1 = 16"
    using a by (intro that [of "take 8 r1'" "drop 8 r1'"]) auto
  obtain x2 x3 where x2: "y1 = x2 @ x3" "length x2 = 8" "length x3 = 8"
    using x1 by (intro that [of "take 8 y1" "drop 8 y1"]) auto
  show ?thesis
    by (simp add: h r a x1 x2 memcpy_def SALT_LEN_def header_bytes_def length_le64)
qed

text \<open>
  C9. On a \<^verbatim>\<open>head\<close> of at least \<open>SALT_LEN + 25\<close> bytes, \<^verbatim>\<open>decrypt_header\<close> is one call
  of the block transform on the 25 bytes type, compressed length, uncompressed length
  and previous header offset (1, 8, 8 and 8 bytes, in this order), with length 25 and
  with the first \<open>SALT_LEN\<close> bytes of \<^verbatim>\<open>head\<close> as salt. When the transform returns true
  the fields are read back from the transformed bytes at the same offsets; when it
  returns false the codec returns false.
\<close>

theorem decrypt_header_layout:
  assumes "SALT_LEN + 25 \<le> length head"
  shows "decrypt_header g c head ct cl ul lh d =
     obind (lrz_crypt g c (header_bytes ct cl ul lh @ drop (SALT_LEN + 25) head) 25
              (take SALT_LEN head) d) (\<lambda>s.
       Returned (if ret s
         then \<lparr>hdr_ret = True, head_mem = take SALT_LEN head @ mem s Buf,
               c_type = mem s Buf ! 0,
               c_len = i64_of_le (take 8 (drop 1 (mem s Buf))),
               u_len = i64_of_le (take 8 (drop 9 (mem s Buf))),
               last_head = i64_of_le (take 8 (drop 17 (mem s Buf)))\<rparr>
         else \<lparr>hdr_ret = False, head_mem = take SALT_LEN head @ mem s Buf,
               c_type = ct, c_len = cl, u_len = ul, last_head = lh\<rparr>))"
proof -
  define b where "b = header_bytes ct cl ul lh @ drop (SALT_LEN + 25) head"
  define h4 where "h4 = take SALT_LEN head @ b"
  define st where "st = take SALT_LEN head"
  have tl: "length st = 16"
    using assms by (simp add: SALT_LEN_def st_def)
  have dr: "drop SALT_LEN h4 = b" "take SALT_LEN h4 = st"
    using assms by (simp_all add: h4_def st_def)
  have "lrz_crypt g c b 25 (take SALT_LEN h4) d = lrz_crypt g c b 25 h4 d"
    using assms by (intro lrz_crypt_salt) (simp add: h4_def)
  then have salt: "lrz_crypt g c b 25 h4 d = lrz_crypt g c b 25 st d"
    by (simp add: dr)
  have unf: "decrypt_header g c head ct cl ul lh d =
     obind (lrz_crypt g c b 25 st d) (\<lambda>s.
       let h5 = st @ mem s Buf in
       if \<not> ret s then
         Returned \<lparr>hdr_ret = False, head_mem = h5, c_type = ct, c_len = cl, u_len = ul, last_head = lh\<rparr>
       else
         obind (memcpy [ct] 0 h5 (int SALT_LEN) 1) (\<lambda>t.
         obind (memcpy (le64 cl) 0 h5 (int SALT_LEN + 1) 8) (\<lambda>a.
         obind (memcpy (le64 ul) 0 h5 (int SALT_LEN + 9) 8) (\<lambda>b.
         obind (memcpy (le64 lh) 0 h5 (int SALT_LEN + 17) 8) (\<lambda>c.
           Returned \<lparr>hdr_ret = True, head_mem = h5, c_type = t ! 0, c_len = i64_of_le a,
                     u_len = i64_of_le b, last_head = i64_of_le c\<rparr>)))))"
    unfolding decrypt_header_def pack_header [OF assms] lrz_decrypt_def
    unfolding b_def [symmetric] h4_def [symmetric] dr salt ..
  show ?thesis
  proof (cases "lrz_crypt g c b 25 st d")
    case Undefined_behaviour
    then show ?thesis
      unfolding unf b_def [symmetric] st_def [symmetric] by simp
  next
    case (Returned s)
    with lrz_crypt_cases [of g c 25 st d b]
    have "crypt_inv b s" by auto
    then have len: "25 \<le> length (mem s Buf)"
      by (simp add: crypt_inv_def length_header_bytes b_def)
    have un: "memcpy [ct] 0 (st @ mem s Buf) (int SALT_LEN) (Suc 0) = Returned (take (Suc 0) (mem s Buf))"
      "memcpy (le64 cl) 0 (st @ mem s Buf) (int SALT_LEN + 1) 8 = Returned (take 8 (drop 1 (mem s Buf)))"
      "memcpy (le64 ul) 0 (st @ mem s Buf) (int SALT_LEN + 9) 8 = Returned (take 8 (drop 9 (mem s Buf)))"
      "memcpy (le64 lh) 0 (st @ mem s Buf) (int SALT_LEN + 17) 8 = Returned (take 8 (drop 17 (mem s Buf)))"
      using len tl by (simp_all add: memcpy_def length_le64 SALT_LEN_def)
    have t0: "take (Suc 0) (mem s Buf) ! 0 = mem s Buf ! 0"
      using len by simp
    show ?thesis
      unfolding unf b_def [symmetric] st_def [symmetric]
      using Returned by (simp add: un t0 Let_def)
  qed
qed



lemma example_header_run:
  "decrypt_header example_gcrypt example_control (replicate 41 3) 5 1000 (- 2) 77 LRZ_ENCRYPT =
   Returned \<lparr>hdr_ret = True,
     head_mem =
       [3, 3, 3, 3, 3, 3, 3, 3, 3, 3, 3, 3, 3, 3, 3, 3, 168, 69, 174, 173,
        173, 173, 173, 173, 173, 83, 82, 82, 82, 82, 31, 173, 8, 8, 8, 8, 8,
        8, 9, 247, 247],
     c_type = 168, c_len = - 5931894172722287035,
     u_len = 625190361703273043, last_head = - 578984096994686968\<rparr>"
  by code_simp

theorem decrypt_header_layout_witness:
  "SALT_LEN + 25 \<le> length (replicate 41 (3 :: uchar)) \<and>
   obind (lrz_crypt example_gcrypt example_control
            (header_bytes 5 1000 (- 2) 77 @ drop (SALT_LEN + 25) (replicate 41 3)) 25
            (take SALT_LEN (replicate 41 3)) LRZ_ENCRYPT) (\<lambda>s.
       Returned (if ret s
         then \<lparr>hdr_ret = True, head_mem = take SALT_LEN (replicate 41 3) @ mem s Buf,
               c_type = mem s Buf ! 0,
               c_len = i64_of_le (take 8 (drop 1 (mem s Buf))),
               u_len = i64_of_le (take 8 (drop 9 (mem s Buf))),
               last_head = i64_of_le (take 8 (drop 17 (mem s Buf)))\<rparr>
         else \<lparr>hdr_ret = False, head_mem = take SALT_LEN (replicate 41 3) @ mem s Buf,
               c_type = 5, c_len = 1000, u_len = - 2, last_head = 77\<rparr>)) =
   Returned \<lparr>hdr_ret = True,
     head_mem =
       [3, 3, 3, 3, 3, 3, 3, 3, 3, 3, 3, 3, 3, 3, 3, 3, 168, 69, 174, 173,
        173, 173, 173, 173, 173, 83, 82, 82, 82, 82, 31, 173, 8, 8, 8, 8, 8,
        8, 9, 247, 247],
     c_type = 168, c_len = - 5931894172722287035,
     u_len = 625190361703273043, last_head = - 578984096994686968\<rparr>"
proof -
  have h: "SALT_LEN + 25 \<le> length (replicate 41 (3 :: uchar))"
    by (simp add: SALT_LEN_def)
  from decrypt_header_layout [OF h, of example_gcrypt example_control 5 1000 "- 2" 77 LRZ_ENCRYPT]
    example_header_run h
  show ?thesis by simp
qed

end
